theory Spec2Isabelle
  imports Complex_Main "HOL-Library.Multiset" "HOL-Library.Monad_Syntax"
begin

section \<open>Python list primitives\<close>

text \<open>
  The sorting functions of \<^verbatim>\<open>algorithms/sorting.py\<close> work on Python lists through
  \<^verbatim>\<open>len\<close>, subscripting, item assignment and slicing. Indices are Python integers
  (\<open>int\<close>); a negative index counts from the end and an index out of range raises
  \<^verbatim>\<open>IndexError\<close>, which is the value \<open>None\<close> of the models below. Slices never raise:
  their bounds are clamped.

  The elements are compared with \<^verbatim>\<open><\<close>, \<^verbatim>\<open><=\<close>, \<^verbatim>\<open>>\<close> and \<^verbatim>\<open>==\<close>. The element type is
  totally ordered through a key: \<open>x < y\<close> is \<open>key x < key y\<close> and \<open>x == y\<close> is
  \<open>key x = key y\<close>. With \<open>key = (\<lambda>x. x)\<close> this is a plain linear order (the integers of the
  tests); a key that forgets part of the element makes elements that compare equal
  distinguishable, which is what stability is about.
\<close>

text \<open>The exceptions that the models name.\<close>

datatype py_error = IndexError | RecursionError | StatisticsError | TypeError | OSError

definition len :: "'a list \<Rightarrow> int" where
  "len xs = int (length xs)"

definition getitem :: "'a list \<Rightarrow> int \<Rightarrow> 'a option" where
  "getitem xs i =
     (let j = (if i < 0 then len xs + i else i)
      in if 0 \<le> j \<and> j < len xs then Some (xs ! nat j) else None)"

definition setitem :: "'a list \<Rightarrow> int \<Rightarrow> 'a \<Rightarrow> 'a list option" where
  "setitem xs i v =
     (let j = (if i < 0 then len xs + i else i)
      in if 0 \<le> j \<and> j < len xs then Some (xs[nat j := v]) else None)"

text \<open>\<^verbatim>\<open>xs[:i]\<close> and \<^verbatim>\<open>xs[i:]\<close>.\<close>

definition slice_to :: "'a list \<Rightarrow> int \<Rightarrow> 'a list" where
  "slice_to xs i = take (nat (if i < 0 then len xs + i else i)) xs"

definition slice_from :: "'a list \<Rightarrow> int \<Rightarrow> 'a list" where
  "slice_from xs i = drop (nat (if i < 0 then len xs + i else i)) xs"

text \<open>
  The built-in \<^verbatim>\<open>sorted\<close> is the platform's stable sort. It is not code of the
  repository; it is modelled by the stable sort of the HOL library.
\<close>

definition sorted_builtin :: "('a \<Rightarrow> 'k::linorder) \<Rightarrow> 'a list \<Rightarrow> 'a list" where
  "sorted_builtin key xs = sort_key key xs"

section \<open>The sorting functions\<close>

subsection \<open>\<^verbatim>\<open>bubble_sort\<close>\<close>

text \<open>
  The inner loop \<^verbatim>\<open>for j in range(0, n - 1 - i)\<close>, from index \<open>j\<close> on, with bound
  \<open>m = n - 1 - i\<close>. The state is the working copy \<open>a\<close> and the flag \<open>swapped\<close>.
  The tuple assignment evaluates \<^verbatim>\<open>a[j + 1]\<close>, then \<^verbatim>\<open>a[j]\<close>, then stores to
  \<^verbatim>\<open>a[j]\<close> and to \<^verbatim>\<open>a[j + 1]\<close>.
\<close>

function bubble_inner ::
  "('a \<Rightarrow> 'k::linorder) \<Rightarrow> 'a list \<Rightarrow> int \<Rightarrow> int \<Rightarrow> bool \<Rightarrow> ('a list \<times> bool) option" where
  "bubble_inner key a j m swapped =
     (if j < m then
        do {
          x \<leftarrow> getitem a j;
          y \<leftarrow> getitem a (j + 1);
          if key x > key y then
            do {
              v1 \<leftarrow> getitem a (j + 1);
              v2 \<leftarrow> getitem a j;
              a1 \<leftarrow> setitem a j v1;
              a2 \<leftarrow> setitem a1 (j + 1) v2;
              bubble_inner key a2 (j + 1) m True
            }
          else bubble_inner key a (j + 1) m swapped
        }
      else Some (a, swapped))"
  by pat_completeness auto
termination
  by (relation "measure (\<lambda>(key, a, j, m, swapped). nat (m - j))") auto

text \<open>
  The outer loop \<^verbatim>\<open>for i in range(n)\<close>, from pass \<open>i\<close> on; a pass without a swap
  leaves the loop (\<^verbatim>\<open>break\<close>).
\<close>

function bubble_outer ::
  "('a \<Rightarrow> 'k::linorder) \<Rightarrow> 'a list \<Rightarrow> int \<Rightarrow> int \<Rightarrow> 'a list option" where
  "bubble_outer key a n i =
     (if i < n then
        do {
          (a', swapped) \<leftarrow> bubble_inner key a 0 (n - 1 - i) False;
          if \<not> swapped then Some a' else bubble_outer key a' n (i + 1)
        }
      else Some a)"
  by pat_completeness auto
termination
  by (relation "measure (\<lambda>(key, a, n, i). nat (n - i))") auto

definition bubble_sort :: "('a \<Rightarrow> 'k::linorder) \<Rightarrow> 'a list \<Rightarrow> 'a list option" where
  "bubble_sort key arr = (let a = arr; n = len a in bubble_outer key a n 0)"

text \<open>
  The outer loop again, instrumented: the working copy and the flag \<open>swapped\<close> at the
  end of every pass that the loop completes, in order. The loop itself is \<open>bubble_outer\<close>;
  this function only records its states.
\<close>

function bubble_trace ::
  "('a \<Rightarrow> 'k::linorder) \<Rightarrow> 'a list \<Rightarrow> int \<Rightarrow> int \<Rightarrow> ('a list \<times> bool) list" where
  "bubble_trace key a n i =
     (if i < n then
        (case bubble_inner key a 0 (n - 1 - i) False of
           None \<Rightarrow> []
         | Some (a', swapped) \<Rightarrow>
             (a', swapped) # (if \<not> swapped then [] else bubble_trace key a' n (i + 1)))
      else [])"
  by pat_completeness auto
termination
  by (relation "measure (\<lambda>(key, a, n, i). nat (n - i))") auto

subsection \<open>\<^verbatim>\<open>insertion_sort\<close>\<close>

text \<open>
  The loop \<^verbatim>\<open>while j >= 0 and a[j] > key\<close>; \<open>k\<close> is the element being inserted (the
  source's local \<^verbatim>\<open>key\<close>). It returns the working copy and the final \<open>j\<close>.
\<close>

function insertion_while ::
  "('a \<Rightarrow> 'k::linorder) \<Rightarrow> 'a list \<Rightarrow> 'a \<Rightarrow> int \<Rightarrow> ('a list \<times> int) option" where
  "insertion_while key a k j =
     (if j \<ge> 0 then
        do {
          x \<leftarrow> getitem a j;
          if key x > key k then
            do {
              v \<leftarrow> getitem a j;
              a' \<leftarrow> setitem a (j + 1) v;
              insertion_while key a' k (j - 1)
            }
          else Some (a, j)
        }
      else Some (a, j))"
  by pat_completeness auto
termination
  by (relation "measure (\<lambda>(key, a, k, j). nat (j + 1))") auto

text \<open>The loop \<^verbatim>\<open>for i in range(1, len(a))\<close>, from index \<open>i\<close> on; \<open>n\<close> is \<^verbatim>\<open>len(a)\<close>.\<close>

function insertion_for ::
  "('a \<Rightarrow> 'k::linorder) \<Rightarrow> 'a list \<Rightarrow> int \<Rightarrow> int \<Rightarrow> 'a list option" where
  "insertion_for key a n i =
     (if i < n then
        do {
          k \<leftarrow> getitem a i;
          (a', j) \<leftarrow> insertion_while key a k (i - 1);
          a'' \<leftarrow> setitem a' (j + 1) k;
          insertion_for key a'' n (i + 1)
        }
      else Some a)"
  by pat_completeness auto
termination
  by (relation "measure (\<lambda>(key, a, n, i). nat (n - i))") auto

definition insertion_sort :: "('a \<Rightarrow> 'k::linorder) \<Rightarrow> 'a list \<Rightarrow> 'a list option" where
  "insertion_sort key arr = (let a = arr in insertion_for key a (len a) 1)"

subsection \<open>\<^verbatim>\<open>merge_sort\<close>\<close>

text \<open>
  The loop of \<^verbatim>\<open>_merge\<close>: \<^verbatim>\<open>while i < len(left) and j < len(right)\<close>. It returns the
  final \<open>i\<close>, \<open>j\<close> and \<open>out\<close>.
\<close>

function merge_while ::
  "('a \<Rightarrow> 'k::linorder) \<Rightarrow> 'a list \<Rightarrow> 'a list \<Rightarrow> int \<Rightarrow> int \<Rightarrow> 'a list
     \<Rightarrow> (int \<times> int \<times> 'a list) option" where
  "merge_while key left right i j out =
     (if i < len left \<and> j < len right then
        do {
          x \<leftarrow> getitem left i;
          y \<leftarrow> getitem right j;
          if key x \<le> key y then
            do {
              v \<leftarrow> getitem left i;
              merge_while key left right (i + 1) j (out @ [v])
            }
          else
            do {
              v \<leftarrow> getitem right j;
              merge_while key left right i (j + 1) (out @ [v])
            }
        }
      else Some (i, j, out))"
  by pat_completeness auto
termination
  by (relation "measure (\<lambda>(key, left, right, i, j, out). nat (len left - i) + nat (len right - j))")
    auto

definition merge_lists ::
  "('a \<Rightarrow> 'k::linorder) \<Rightarrow> 'a list \<Rightarrow> 'a list \<Rightarrow> 'a list option" where
  "merge_lists key left right =
     do {
       (i, j, out) \<leftarrow> merge_while key left right 0 0 [];
       Some (out @ slice_from left i @ slice_from right j)
     }"

lemma length_slice_to_half:
  "\<not> len xs \<le> 1 \<Longrightarrow> length (slice_to xs (len xs div 2)) < length xs"
  by (simp add: slice_to_def len_def)

lemma length_slice_from_half:
  "\<not> len xs \<le> 1 \<Longrightarrow> length (slice_from xs (len xs div 2)) < length xs"
  by (simp add: slice_from_def len_def)

function merge_sort :: "('a \<Rightarrow> 'k::linorder) \<Rightarrow> 'a list \<Rightarrow> 'a list option" where
  "merge_sort key arr =
     (if len arr \<le> 1 then Some arr
      else
        (let mid = len arr div 2 in
         do {
           left \<leftarrow> merge_sort key (slice_to arr mid);
           right \<leftarrow> merge_sort key (slice_from arr mid);
           merge_lists key left right
         }))"
  by pat_completeness auto
termination
  by (relation "measure (\<lambda>(key, arr). length arr)")
    (auto intro: length_slice_to_half length_slice_from_half)

subsection \<open>\<^verbatim>\<open>quick_sort\<close>\<close>

lemma getitem_in_set: "getitem xs i = Some x \<Longrightarrow> x \<in> set xs"
  by (auto simp: getitem_def Let_def len_def split: if_splits)

lemma length_filter_pivot:
  "p \<in> set xs \<Longrightarrow> \<not> P p \<Longrightarrow> length (filter P xs) < length xs"
  by (metis length_filter_less)

function quick_sort :: "('a \<Rightarrow> 'k::linorder) \<Rightarrow> 'a list \<Rightarrow> 'a list option" where
  "quick_sort key arr =
     (let a = arr in
      if len a \<le> 1 then Some a
      else
        do {
          pivot \<leftarrow> getitem a (len a div 2);
          let left = filter (\<lambda>x. key x < key pivot) a;
          let middle = filter (\<lambda>x. key x = key pivot) a;
          let right = filter (\<lambda>x. key x > key pivot) a;
          l \<leftarrow> quick_sort key left;
          r \<leftarrow> quick_sort key right;
          Some (l @ middle @ r)
        })"
  by pat_completeness auto
termination
  by (relation "measure (\<lambda>(key, arr). length arr)")
    (auto dest!: getitem_in_set intro!: length_filter_pivot)

subsection \<open>\<^verbatim>\<open>python_sort\<close>\<close>

definition python_sort :: "('a \<Rightarrow> 'k::linorder) \<Rightarrow> 'a list \<Rightarrow> 'a list option" where
  "python_sort key arr = Some (sorted_builtin key arr)"

subsection \<open>The sorting functions under the interpreter's recursion limit\<close>

text \<open>
  The interpreter allows a bounded number of nested calls and raises \<^verbatim>\<open>RecursionError\<close>
  when a call would exceed it. The functions above leave this bound out: they say what a
  call returns when no bound stops it. The functions below are the same code with the
  bound: \<open>d\<close> is the number of frames that the interpreter still allows when the function
  is called, the call takes one of them, and each call that it makes has one frame fewer.
  A result is \<open>Inr\<close> of the list, or \<open>Inl\<close> of the exception.

  A list comprehension runs in a frame of its own in interpreters before version 3.12 and
  in the frame of its function from 3.12 on; \<open>cf\<close> is the number of frames it takes
  (1 or 0).
\<close>

definition of_option :: "'a option \<Rightarrow> py_error + 'a" where
  "of_option r = (case r of None \<Rightarrow> Inl IndexError | Some v \<Rightarrow> Inr v)"







section \<open>Correctness of \<^verbatim>\<open>bubble_sort\<close>\<close>

declare bubble_inner.simps [simp del] bubble_outer.simps [simp del]

lemma getitem_append_here [simp]:
  "getitem (pre @ x # rest) (int (length pre)) = Some x"
  by (simp add: getitem_def len_def)

lemma getitem_append_next [simp]:
  "getitem (pre @ x # y # rest) (int (length pre) + 1) = Some y"
  by (simp add: getitem_def len_def nat_add_distrib nth_append)

lemma setitem_append_here [simp]:
  "setitem (pre @ x # rest) (int (length pre)) v = Some (pre @ v # rest)"
  by (simp add: setitem_def len_def)

lemma setitem_append_next [simp]:
  "setitem (pre @ x # y # rest) (int (length pre) + 1) v = Some (pre @ x # v # rest)"
  by (simp add: setitem_def len_def nat_add_distrib list_update_append)

fun bubble_pass :: "('a \<Rightarrow> 'k::linorder) \<Rightarrow> nat \<Rightarrow> 'a list \<Rightarrow> 'a list" where
  "bubble_pass key (Suc n) (x # y # zs) =
     (if key x > key y then y # bubble_pass key n (x # zs) else x # bubble_pass key n (y # zs))"
| "bubble_pass key n xs = xs"

fun bubble_swaps :: "('a \<Rightarrow> 'k::linorder) \<Rightarrow> nat \<Rightarrow> 'a list \<Rightarrow> bool" where
  "bubble_swaps key (Suc n) (x # y # zs) =
     (if key x > key y then True else bubble_swaps key n (y # zs))"
| "bubble_swaps key n xs = False"

lemma bubble_inner_pass:
  "n < length xs \<Longrightarrow> j = int (length pre) \<Longrightarrow> m = j + int n \<Longrightarrow>
   bubble_inner key (pre @ xs) j m sw =
     Some (pre @ bubble_pass key n xs, sw \<or> bubble_swaps key n xs)"
proof (induction n arbitrary: pre xs sw j)
  case 0
  then show ?case by (simp add: bubble_inner.simps)
next
  case (Suc n)
  then obtain x y zs where xs: "xs = x # y # zs"
    by (cases xs; cases "tl xs") auto
  have n: "n < length (x # zs)" "n < length (y # zs)" using Suc.prems xs by auto
  show ?case
  proof (cases "key x > key y")
    case True
    have "bubble_inner key (pre @ xs) j m sw =
          bubble_inner key ((pre @ [y]) @ x # zs) (j + 1) m True"
      by (subst bubble_inner.simps) (simp add: xs True Suc.prems)
    also have "\<dots> = Some ((pre @ [y]) @ bubble_pass key n (x # zs), True \<or> bubble_swaps key n (x # zs))"
      by (rule Suc.IH [OF n(1)]) (use Suc.prems in auto)
    finally show ?thesis by (simp add: xs True)
  next
    case False
    have "bubble_inner key (pre @ xs) j m sw =
          bubble_inner key ((pre @ [x]) @ y # zs) (j + 1) m sw"
      by (subst bubble_inner.simps) (simp add: xs False Suc.prems)
    also have "\<dots> = Some ((pre @ [x]) @ bubble_pass key n (y # zs), sw \<or> bubble_swaps key n (y # zs))"
      by (rule Suc.IH [OF n(2)]) (use Suc.prems in auto)
    finally show ?thesis by (simp add: xs False)
  qed
qed

lemma length_bubble_pass [simp]: "length (bubble_pass key n xs) = length xs"
  by (induction key n xs rule: bubble_pass.induct) auto

lemma mset_bubble_pass [simp]: "mset (bubble_pass key n xs) = mset xs"
  by (induction key n xs rule: bubble_pass.induct) auto

lemma filter_bubble_pass:
  "filter (\<lambda>z. key z = c) (bubble_pass key n xs) = filter (\<lambda>z. key z = c) xs"
  by (induction key n xs rule: bubble_pass.induct) auto

lemma bubble_pass_append:
  "n < length xs \<Longrightarrow> bubble_pass key n (xs @ ys) = bubble_pass key n xs @ ys"
  by (induction key n xs rule: bubble_pass.induct) auto

lemma bubble_pass_max:
  "n < length xs \<Longrightarrow> \<forall>z \<in> set (take (Suc n) xs). key z \<le> key (bubble_pass key n xs ! n)"
proof (induction key n xs rule: bubble_pass.induct)
  case (1 key n x y zs)
  then show ?case by (cases "key x > key y") (auto simp: less_imp_le)
qed (auto simp: neq_Nil_conv)

lemma sorted_take_one [simp]: "sorted (map key (take (Suc 0) xs))"
  by (cases xs) auto

lemma bubble_no_swaps:
  "\<not> bubble_swaps key n xs \<Longrightarrow>
   bubble_pass key n xs = xs \<and> sorted (map key (take (Suc n) xs))"
proof (induction key n xs rule: bubble_pass.induct)
  case (1 key n x y zs)
  then show ?case by (cases "key x > key y") (auto simp: not_less)
qed auto

text \<open>
  One pass over a non-empty front part leaves its greatest element last.
\<close>

lemma bubble_pass_last:
  assumes "front \<noteq> []"
  shows "\<forall>z \<in> set (bubble_pass key (length front - 1) front).
           key z \<le> key (last (bubble_pass key (length front - 1) front))"
proof -
  let ?n = "length front - 1" and ?r = "bubble_pass key (length front - 1) front"
  have n: "?n < length front" using assms by (cases front) auto
  have "take (Suc ?n) front = front" using n by simp
  with bubble_pass_max [OF n, of key]
  have "\<forall>z \<in> set front. key z \<le> key (?r ! ?n)" by simp
  moreover have "set ?r = set front" by (metis mset_bubble_pass set_mset_mset)
  moreover have "?r \<noteq> []" using assms by (metis length_bubble_pass length_0_conv)
  then have "?r ! ?n = last ?r"
    by (simp add: last_conv_nth)
  ultimately show ?thesis by simp
qed

lemma bubble_outer_correct:
  assumes "sorted (map key rear)"
    and "\<forall>x \<in> set front. \<forall>y \<in> set rear. key x \<le> key y"
  shows "\<exists>r. bubble_outer key (front @ rear) (len (front @ rear)) (int (length rear)) = Some r
           \<and> sorted (map key r) \<and> mset r = mset (front @ rear)
           \<and> (\<forall>c. filter (\<lambda>z. key z = c) r = filter (\<lambda>z. key z = c) (front @ rear))
           \<and> drop (length front) r = rear"
  using assms
proof (induction "length front" arbitrary: front rear)
  case 0
  then show ?case by (subst bubble_outer.simps) (simp add: len_def)
next
  case (Suc k)
  let ?a = "front @ rear" and ?m = "length front - 1"
  have ne: "front \<noteq> []" using Suc.hyps(2) by auto
  have m: "?m < length ?a" using ne by (cases front) auto
  have inner: "bubble_inner key ?a 0 (len ?a - 1 - int (length rear)) False =
        Some (bubble_pass key ?m ?a, bubble_swaps key ?m ?a)"
    using bubble_inner_pass [OF m, of 0 "[]" "len ?a - 1 - int (length rear)" key False] ne
    by (cases front) (auto simp: len_def)
  have cond: "int (length rear) < len ?a" using ne by (simp add: len_def)
  show ?case
  proof (cases "bubble_swaps key ?m ?a")
    case False
    from bubble_no_swaps [OF False]
    have same: "bubble_pass key ?m ?a = ?a" and srt: "sorted (map key (take (Suc ?m) ?a))"
      by simp_all
    have "Suc ?m = length front" using ne by (cases front) auto
    with srt have "sorted (map key (take (length front) ?a))" by (simp only:)
    then have "sorted (map key front)" by simp
    with Suc.prems have "sorted (map key ?a)" by (auto simp: sorted_append)
    moreover have "bubble_outer key ?a (len ?a) (int (length rear)) = Some ?a"
      by (subst bubble_outer.simps) (use cond inner False same in simp)
    ultimately show ?thesis by simp
  next
    case True
    let ?r = "bubble_pass key ?m front"
    have pass: "bubble_pass key ?m ?a = ?r @ rear"
      using ne by (intro bubble_pass_append) (cases front, auto)
    have rne: "?r \<noteq> []" using ne by (metis length_bubble_pass length_0_conv)
    define front' where "front' = butlast ?r"
    define rear' where "rear' = last ?r # rear"
    have split: "?r @ rear = front' @ rear'"
      using rne by (simp add: front'_def rear'_def)
    have setr: "set ?r = set front" by (metis mset_bubble_pass set_mset_mset)
    have lastr: "last ?r \<in> set front" using rne setr last_in_set by blast
    have k: "k = length front'" using Suc.hyps(2) by (simp add: front'_def)
    have "sorted (map key rear')"
      using Suc.prems lastr by (auto simp: rear'_def)
    moreover have "\<forall>x \<in> set front'. \<forall>y \<in> set rear'. key x \<le> key y"
    proof (intro ballI)
      fix x y assume x: "x \<in> set front'" and y: "y \<in> set rear'"
      have x': "x \<in> set ?r" using x by (auto simp: front'_def dest: in_set_butlastD)
      then have "key x \<le> key (last ?r)" using bubble_pass_last [OF ne, of key] by blast
      moreover have "x \<in> set front" using x' setr by simp
      ultimately show "key x \<le> key y" using y Suc.prems(2) lastr
        by (auto simp: rear'_def)
    qed
    ultimately obtain r where r:
      "bubble_outer key (front' @ rear') (len (front' @ rear')) (int (length rear')) = Some r"
      "sorted (map key r)" "mset r = mset (front' @ rear')"
      "\<forall>c. filter (\<lambda>z. key z = c) r = filter (\<lambda>z. key z = c) (front' @ rear')"
      "drop (length front') r = rear'"
      using Suc.hyps(1) [OF k] by blast
    have "length (front' @ rear') = length (?r @ rear)" by (simp only: split)
    then have lens: "len (front' @ rear') = len ?a" "int (length rear') = int (length rear) + 1"
      by (simp_all add: len_def rear'_def)
    have "bubble_outer key ?a (len ?a) (int (length rear)) =
          bubble_outer key (front' @ rear') (len ?a) (int (length rear) + 1)"
      by (subst bubble_outer.simps) (use cond inner True pass split in simp)
    with r(1) lens have res: "bubble_outer key ?a (len ?a) (int (length rear)) = Some r" by simp
    have "mset (front' @ rear') = mset (?r @ rear)" by (simp only: split)
    then have msets: "mset (front' @ rear') = mset ?a" by simp
    have filt: "filter (\<lambda>z. key z = c) (front' @ rear') = filter (\<lambda>z. key z = c) ?a" for c
    proof -
      have "filter (\<lambda>z. key z = c) (front' @ rear') = filter (\<lambda>z. key z = c) (?r @ rear)"
        by (simp only: split)
      then show ?thesis by (simp add: filter_bubble_pass)
    qed
    have "length r = length ?a" using r(3) msets by (metis size_mset)
    have "drop (length front) r = drop 1 (drop (length front') r)"
      using k Suc.hyps(2) by simp
    also have "\<dots> = rear" using r(5) by (simp add: rear'_def)
    finally have "drop (length front) r = rear" .
    with res r(2) r(3) r(4) msets filt show ?thesis by simp
  qed
qed

lemma bubble_sort_correct:
  "\<exists>r. bubble_sort key xs = Some r \<and> sorted (map key r) \<and> mset r = mset xs
       \<and> (\<forall>c. filter (\<lambda>z. key z = c) r = filter (\<lambda>z. key z = c) xs)"
  using bubble_outer_correct [of key "[]" xs] by (auto simp: bubble_sort_def)

subsection \<open>The passes of \<^verbatim>\<open>bubble_sort\<close>\<close>

declare bubble_trace.simps [simp del]


lemma bubble_step:
  assumes ne: "front \<noteq> []" and srt: "sorted (map key rear)"
    and le: "\<forall>x \<in> set front. \<forall>y \<in> set rear. key x \<le> key y"
  shows "\<exists>front' x sw.
      bubble_inner key (front @ rear) 0 (len (front @ rear) - 1 - int (length rear)) False =
        Some (front' @ x # rear, sw)
      \<and> Suc (length front') = length front
      \<and> sorted (map key (x # rear))
      \<and> (\<forall>u \<in> set front'. \<forall>v \<in> set (x # rear). key u \<le> key v)
      \<and> (\<not> sw \<longrightarrow> front' @ [x] = front \<and> sorted (map key (front @ rear)))"
proof -
  let ?a = "front @ rear" and ?m = "length front - 1"
  let ?r = "bubble_pass key ?m front"
  have m: "?m < length ?a" using ne by (cases front) auto
  have inner: "bubble_inner key ?a 0 (len ?a - 1 - int (length rear)) False =
        Some (bubble_pass key ?m ?a, bubble_swaps key ?m ?a)"
    using bubble_inner_pass [OF m, of 0 "[]" "len ?a - 1 - int (length rear)" key False] ne
    by (cases front) (auto simp: len_def)
  have pass: "bubble_pass key ?m ?a = ?r @ rear"
    using ne by (intro bubble_pass_append) (cases front, auto)
  have rne: "?r \<noteq> []" using ne by (metis length_bubble_pass length_0_conv)
  define front' where "front' = butlast ?r"
  define x where "x = last ?r"
  have split: "?r = front' @ [x]" using rne by (simp add: front'_def x_def)
  have setr: "set ?r = set front" by (metis mset_bubble_pass set_mset_mset)
  have xin: "x \<in> set front" using rne setr last_in_set unfolding x_def by blast
  have len': "Suc (length front') = length front"
    using ne by (simp add: front'_def)
  have s1: "sorted (map key (x # rear))" using srt le xin by auto
  have s2: "\<forall>u \<in> set front'. \<forall>v \<in> set (x # rear). key u \<le> key v"
  proof (intro ballI)
    fix u v assume u: "u \<in> set front'" and v: "v \<in> set (x # rear)"
    have u': "u \<in> set ?r" using u by (auto simp: front'_def dest: in_set_butlastD)
    then have "key u \<le> key x" using bubble_pass_last [OF ne, of key] unfolding x_def by blast
    moreover have "u \<in> set front" using u' setr by simp
    ultimately show "key u \<le> key v" using v le by auto
  qed
  have s3: "front' @ [x] = front \<and> sorted (map key (front @ rear))"
    if nsw: "\<not> bubble_swaps key ?m ?a"
  proof -
    from bubble_no_swaps [OF nsw]
    have same: "bubble_pass key ?m ?a = ?a" and st: "sorted (map key (take (Suc ?m) ?a))"
      by simp_all
    have "Suc ?m = length front" using ne by (cases front) auto
    with st have "sorted (map key (take (length front) ?a))" by (simp only:)
    then have "sorted (map key front)" by simp
    with srt le have "sorted (map key ?a)" by (auto simp: sorted_append)
    moreover have "?r = front" using same pass by simp
    ultimately show ?thesis using split by simp
  qed
  have "bubble_inner key ?a 0 (len ?a - 1 - int (length rear)) False =
        Some (front' @ x # rear, bubble_swaps key ?m ?a)"
    using inner pass split by simp
  with len' s1 s2 s3 show ?thesis by blast
qed


lemma bubble_trace_correct:
  assumes "sorted (map key rear)"
    and "\<forall>x \<in> set front. \<forall>y \<in> set rear. key x \<le> key y"
    and "t = bubble_trace key (front @ rear) (len (front @ rear)) (int (length rear))"
  shows "bubble_outer key (front @ rear) (len (front @ rear)) (int (length rear)) =
           Some (last ((front @ rear) # map fst t))
         \<and> (\<forall>k < length t.
               drop (length front - Suc k) (fst (t ! k)) =
                 drop (length front - Suc k) (last ((front @ rear) # map fst t))
               \<and> (\<not> snd (t ! k) \<longrightarrow> Suc k = length t))"
  using assms
proof (induction "length front" arbitrary: front rear t)
  case 0
  then have "t = []" by (subst (asm) bubble_trace.simps) (simp add: len_def)
  moreover have "bubble_outer key (front @ rear) (len (front @ rear)) (int (length rear)) =
      Some (front @ rear)"
    using 0 by (subst bubble_outer.simps) (simp add: len_def)
  ultimately show ?case by simp
next
  case (Suc n)
  let ?a = "front @ rear"
  have ne: "front \<noteq> []" using Suc.hyps(2) by auto
  have cond: "int (length rear) < len ?a" using ne by (simp add: len_def)
  from bubble_step [OF ne Suc.prems(1) Suc.prems(2)]
  obtain front' x sw where st:
    "bubble_inner key ?a 0 (len ?a - 1 - int (length rear)) False = Some (front' @ x # rear, sw)"
    "Suc (length front') = length front"
    "sorted (map key (x # rear))"
    "\<forall>u \<in> set front'. \<forall>v \<in> set (x # rear). key u \<le> key v"
    "\<not> sw \<longrightarrow> front' @ [x] = front \<and> sorted (map key ?a)"
    by blast
  let ?a' = "front' @ x # rear"
  show ?case
  proof (cases sw)
    case False
    have t: "t = [(?a', False)]"
      unfolding Suc.prems(3) by (subst bubble_trace.simps) (use cond st(1) False in simp)
    have "bubble_outer key ?a (len ?a) (int (length rear)) = Some ?a'"
      by (subst bubble_outer.simps) (use cond st(1) False in simp)
    then show ?thesis by (simp add: t)
  next
    case True
    define t' where "t' = bubble_trace key ?a' (len ?a') (int (length (x # rear)))"
    have lens: "len ?a' = len ?a" "int (length (x # rear)) = int (length rear) + 1"
      using st(2) by (simp_all add: len_def)
    have t: "t = (?a', True) # t'"
      unfolding Suc.prems(3) t'_def lens
      by (subst bubble_trace.simps) (use cond st(1) True in simp)
    have out: "bubble_outer key ?a (len ?a) (int (length rear)) =
        bubble_outer key ?a' (len ?a') (int (length (x # rear)))"
      unfolding lens by (subst bubble_outer.simps) (use cond st(1) True in simp)
    have n: "n = length front'" using Suc.hyps(2) st(2) by simp
    note ih = Suc.hyps(1) [OF n st(3) st(4) t'_def]
    let ?R = "last (?a' # map fst t')"
    have R: "last (?a # map fst t) = ?R" by (simp add: t)
    from bubble_outer_correct [OF st(3) st(4)] ih
    have dropR: "drop (length front') ?R = x # rear" by auto
    have "drop (length front - Suc k) (fst (t ! k)) = drop (length front - Suc k) ?R
        \<and> (\<not> snd (t ! k) \<longrightarrow> Suc k = length t)" if k: "k < length t" for k
    proof (cases k)
      case 0
      have "length front - Suc 0 = length front'" using st(2) by simp
      then show ?thesis using dropR by (simp add: 0 t)
    next
      case (Suc k')
      then have k': "k' < length t'" using k t by simp
      have "length front - Suc (Suc k') = length front' - Suc k'" using st(2) by simp
      then show ?thesis using ih k' by (simp add: Suc t)
    qed
    then show ?thesis using out ih R by simp
  qed
qed

lemma sorted_pass_idle:
  "sorted (map key xs) \<Longrightarrow> bubble_pass key n xs = xs \<and> \<not> bubble_swaps key n xs"
  by (induction key n xs rule: bubble_pass.induct) auto

lemma bubble_inner_idle:
  assumes "sorted (map key s)" and "0 \<le> m" and "m < len s"
  shows "bubble_inner key s 0 m False = Some (s, False)"
proof -
  have "nat m < length s" using assms by (simp add: len_def)
  from bubble_inner_pass [OF this, of 0 "[]" m key False] assms(2)
  show ?thesis using sorted_pass_idle [OF assms(1), of "nat m"] by simp
qed


section \<open>Correctness of \<^verbatim>\<open>insertion_sort\<close>\<close>

declare insertion_while.simps [simp del] insertion_for.simps [simp del]

text \<open>
  Inserting \<open>k\<close> into \<open>pre\<close> from the right: behind the last element that is not
  greater than \<open>k\<close>.
\<close>

definition insert_last :: "('a \<Rightarrow> 'k::linorder) \<Rightarrow> 'a list \<Rightarrow> 'a \<Rightarrow> 'a list" where
  "insert_last key pre k =
     rev (dropWhile (\<lambda>y. key y > key k) (rev pre)) @ k #
     rev (takeWhile (\<lambda>y. key y > key k) (rev pre))"

lemma insert_last_Nil [simp]: "insert_last key [] k = [k]"
  by (simp add: insert_last_def)

lemma insert_last_snoc:
  "insert_last key (p @ [y]) k =
     (if key y > key k then insert_last key p k @ [y] else p @ [y, k])"
  by (simp add: insert_last_def)

lemma insertion_while_shift:
  "j = int (length pre) - 1 \<Longrightarrow>
   insertion_while key (pre @ s # post) k j =
     Some (rev (dropWhile (\<lambda>y. key y > key k) (rev pre)) @
           hd (rev (takeWhile (\<lambda>y. key y > key k) (rev pre)) @ [s]) #
           rev (takeWhile (\<lambda>y. key y > key k) (rev pre)) @ post,
           int (length (dropWhile (\<lambda>y. key y > key k) (rev pre))) - 1)"
proof (induction pre arbitrary: s post j rule: rev_induct)
  case Nil
  then show ?case by (subst insertion_while.simps) simp
next
  case (snoc y p)
  have j: "j = int (length p)" using snoc.prems by simp
  have rd: "getitem ((p @ [y]) @ s # post) j = Some y"
    using getitem_append_here [of p y "s # post"] by (simp add: j)
  show ?case
  proof (cases "key y > key k")
    case True
    have wr: "setitem ((p @ [y]) @ s # post) (j + 1) y = Some (p @ y # y # post)"
      using setitem_append_next [of p y s post y] by (simp add: j)
    have "insertion_while key ((p @ [y]) @ s # post) k j =
          insertion_while key (p @ y # y # post) k (j - 1)"
      by (subst insertion_while.simps) (use rd wr True j in simp)
    also have "\<dots> =
        Some (rev (dropWhile (\<lambda>y. key y > key k) (rev p)) @
           hd (rev (takeWhile (\<lambda>y. key y > key k) (rev p)) @ [y]) #
           rev (takeWhile (\<lambda>y. key y > key k) (rev p)) @ y # post,
           int (length (dropWhile (\<lambda>y. key y > key k) (rev p))) - 1)"
      by (rule snoc.IH) (simp add: j)
    finally show ?thesis using True by (simp add: hd_append)
  next
    case False
    have "insertion_while key ((p @ [y]) @ s # post) k j = Some ((p @ [y]) @ s # post, j)"
      by (subst insertion_while.simps) (use rd False j in simp)
    then show ?thesis using False by (simp add: j)
  qed
qed

lemma insertion_step:
  "insertion_for key (pre @ k # post) n (int (length pre)) =
     (if int (length pre) < n
      then insertion_for key (insert_last key pre k @ post) n (int (length pre) + 1)
      else Some (pre @ k # post))"
proof -
  let ?L = "rev (dropWhile (\<lambda>y. key y > key k) (rev pre))"
  let ?R = "rev (takeWhile (\<lambda>y. key y > key k) (rev pre))"
  have w: "insertion_while key (pre @ k # post) k (int (length pre) - 1) =
        Some (?L @ hd (?R @ [k]) # ?R @ post, int (length ?L) - 1)"
    using insertion_while_shift [where j = "int (length pre) - 1" and pre = pre and s = k and post = post and k = k and key = key] by simp
  have s: "setitem (?L @ hd (?R @ [k]) # ?R @ post) (int (length ?L) - 1 + 1) k =
        Some (?L @ k # ?R @ post)"
    using setitem_append_here [of ?L "hd (?R @ [k])" "?R @ post" k] by simp
  show ?thesis
    by (subst insertion_for.simps) (use w s in \<open>simp add: insert_last_def\<close>)
qed

lemma length_insert_last [simp]: "length (insert_last key pre k) = Suc (length pre)"
  by (induction pre rule: rev_induct) (auto simp: insert_last_snoc)

lemma insertion_for_foldl:
  "n = len (pre @ post) \<Longrightarrow>
   insertion_for key (pre @ post) n (int (length pre)) = Some (foldl (insert_last key) pre post)"
proof (induction post arbitrary: pre)
  case Nil
  then show ?case by (subst insertion_for.simps) (simp add: len_def)
next
  case (Cons k post)
  have idx: "int (length pre) + 1 = int (length (insert_last key pre k))" by simp
  have "insertion_for key (pre @ k # post) n (int (length pre)) =
        insertion_for key (insert_last key pre k @ post) n (int (length pre) + 1)"
    using Cons.prems by (simp add: insertion_step len_def)
  also have "\<dots> = Some (foldl (insert_last key) (insert_last key pre k) post)"
    unfolding idx by (rule Cons.IH) (use Cons.prems in \<open>simp add: len_def\<close>)
  finally show ?case by simp
qed

lemma insertion_sort_foldl:
  "insertion_sort key xs = Some (foldl (insert_last key) [] xs)"
proof (cases xs)
  case Nil
  then show ?thesis
    by (simp add: insertion_sort_def len_def insertion_for.simps)
next
  case (Cons x rest)
  then show ?thesis
    using insertion_for_foldl [of "len xs" "[x]" rest key] by (simp add: insertion_sort_def)
qed

lemma mset_insert_last [simp]: "mset (insert_last key pre k) = add_mset k (mset pre)"
  by (induction pre rule: rev_induct) (auto simp: insert_last_snoc)

lemma sorted_insert_last:
  "sorted (map key pre) \<Longrightarrow> sorted (map key (insert_last key pre k))"
proof (induction pre rule: rev_induct)
  case Nil
  then show ?case by simp
next
  case (snoc y p)
  have "set (insert_last key p k) = insert k (set p)"
    by (metis mset_insert_last set_mset_add_mset_insert set_mset_mset)
  with snoc show ?case
    by (auto simp: insert_last_snoc sorted_append less_imp_le not_less)
qed

lemma filter_insert_last:
  "filter (\<lambda>z. key z = c) (insert_last key pre k) = filter (\<lambda>z. key z = c) (pre @ [k])"
  by (induction pre rule: rev_induct) (auto simp: insert_last_snoc)

lemma foldl_insert_last_correct:
  "sorted (map key acc) \<Longrightarrow>
   sorted (map key (foldl (insert_last key) acc xs)) \<and>
   mset (foldl (insert_last key) acc xs) = mset acc + mset xs \<and>
   (\<forall>c. filter (\<lambda>z. key z = c) (foldl (insert_last key) acc xs) =
        filter (\<lambda>z. key z = c) (acc @ xs))"
proof (induction xs arbitrary: acc)
  case Nil
  then show ?case by simp
next
  case (Cons x xs)
  from Cons.IH [OF sorted_insert_last [OF Cons.prems, of x]]
  show ?case by (simp add: filter_insert_last)
qed

lemma insertion_sort_correct:
  "\<exists>r. insertion_sort key xs = Some r \<and> sorted (map key r) \<and> mset r = mset xs
       \<and> (\<forall>c. filter (\<lambda>z. key z = c) r = filter (\<lambda>z. key z = c) xs)"
  using foldl_insert_last_correct [of key "[]" xs] by (simp add: insertion_sort_foldl)

section \<open>Correctness of \<^verbatim>\<open>merge_sort\<close>\<close>

declare merge_while.simps [simp del] merge_sort.simps [simp del] quick_sort.simps [simp del]

text \<open>
  The scheme of the specification: merging takes the lesser front element, the left one
  when the two fronts compare equal; sorting splits at \<open>length xs div 2\<close>.
\<close>

fun merge_scheme :: "('a \<Rightarrow> 'k::linorder) \<Rightarrow> 'a list \<Rightarrow> 'a list \<Rightarrow> 'a list" where
  "merge_scheme key [] ys = ys"
| "merge_scheme key (x # xs) [] = x # xs"
| "merge_scheme key (x # xs) (y # ys) =
     (if key x \<le> key y then x # merge_scheme key xs (y # ys)
      else y # merge_scheme key (x # xs) ys)"

function merge_sort_scheme :: "('a \<Rightarrow> 'k::linorder) \<Rightarrow> 'a list \<Rightarrow> 'a list" where
  "merge_sort_scheme key xs =
     (if length xs \<le> 1 then xs
      else merge_scheme key
             (merge_sort_scheme key (take (length xs div 2) xs))
             (merge_sort_scheme key (drop (length xs div 2) xs)))"
  by pat_completeness auto
termination
  by (relation "measure (\<lambda>(key, xs). length xs)") auto

declare merge_sort_scheme.simps [simp del]

lemma slice_from_append [simp]: "slice_from (l1 @ l2) (int (length l1)) = l2"
  by (simp add: slice_from_def)

lemma slice_from_all [simp]: "slice_from l (int (length l)) = []"
  by (simp add: slice_from_def)

lemma slice_to_half: "slice_to xs (len xs div 2) = take (length xs div 2) xs"
  by (simp add: slice_to_def len_def nat_div_distrib)

lemma slice_from_half: "slice_from xs (len xs div 2) = drop (length xs div 2) xs"
  by (simp add: slice_from_def len_def nat_div_distrib)

lemma merge_while_scheme:
  "left = l1 @ l2 \<Longrightarrow> right = r1 @ r2 \<Longrightarrow> i = int (length l1) \<Longrightarrow> j = int (length r1) \<Longrightarrow>
   (merge_while key left right i j out \<bind>
      (\<lambda>(i, j, out). Some (out @ slice_from left i @ slice_from right j))) =
   Some (out @ merge_scheme key l2 r2)"
proof (induction key l2 r2 arbitrary: l1 r1 i j out rule: merge_scheme.induct)
  case (1 key ys)
  then show ?case by (subst merge_while.simps) (simp add: len_def)
next
  case (2 key x xs)
  then show ?case by (subst merge_while.simps) (simp add: len_def)
next
  case (3 key x xs y ys)
  have rd: "getitem left i = Some x" "getitem right j = Some y"
    using 3 by simp_all
  have cond: "i < len left \<and> j < len right" using 3 by (simp add: len_def)
  show ?case
  proof (cases "key x \<le> key y")
    case True
    have "(merge_while key left right i j out \<bind>
            (\<lambda>(i, j, out). Some (out @ slice_from left i @ slice_from right j))) =
          (merge_while key left right (i + 1) j (out @ [x]) \<bind>
            (\<lambda>(i, j, out). Some (out @ slice_from left i @ slice_from right j)))"
      by (subst merge_while.simps) (use rd cond True in simp)
    also have "\<dots> = Some ((out @ [x]) @ merge_scheme key xs (y # ys))"
      by (rule "3.IH"(1) [OF True, where ?l1.0 = "l1 @ [x]" and ?r1.0 = r1]) (use 3 in simp_all)
    finally show ?thesis using True by simp
  next
    case False
    have "(merge_while key left right i j out \<bind>
            (\<lambda>(i, j, out). Some (out @ slice_from left i @ slice_from right j))) =
          (merge_while key left right i (j + 1) (out @ [y]) \<bind>
            (\<lambda>(i, j, out). Some (out @ slice_from left i @ slice_from right j)))"
      by (subst merge_while.simps) (use rd cond False in simp)
    also have "\<dots> = Some ((out @ [y]) @ merge_scheme key (x # xs) ys)"
      by (rule "3.IH"(2) [OF False, where ?l1.0 = l1 and ?r1.0 = "r1 @ [y]"]) (use 3 in simp_all)
    finally show ?thesis using False by simp
  qed
qed

lemma merge_lists_scheme: "merge_lists key left right = Some (merge_scheme key left right)"
  using merge_while_scheme [of left "[]" left right "[]" right 0 0 key "[]"]
  by (simp add: merge_lists_def)

lemma merge_sort_is_scheme: "merge_sort key xs = Some (merge_sort_scheme key xs)"
proof (induction key xs rule: merge_sort.induct)
  case (1 key arr)
  show ?case
  proof (cases "len arr \<le> 1")
    case True
    then show ?thesis
      by (subst merge_sort.simps, subst merge_sort_scheme.simps) (simp add: len_def)
  next
    case False
    note ih1 = "1.IH"(1) [OF False refl]
    note ih2 = "1.IH"(2) [OF False refl ih1]
    have long: "\<not> length arr \<le> 1" using False by (simp add: len_def)
    show ?thesis
      by (subst merge_sort.simps, subst merge_sort_scheme.simps)
        (use False long ih1 ih2 in
          \<open>simp add: merge_lists_scheme slice_to_half slice_from_half Let_def\<close>)
  qed
qed

lemma mset_merge_scheme [simp]: "mset (merge_scheme key xs ys) = mset xs + mset ys"
  by (induction key xs ys rule: merge_scheme.induct) auto

lemma set_merge_scheme [simp]: "set (merge_scheme key xs ys) = set xs \<union> set ys"
  by (metis mset_merge_scheme set_mset_mset set_mset_union)

lemma sorted_merge_scheme:
  "sorted (map key xs) \<Longrightarrow> sorted (map key ys) \<Longrightarrow> sorted (map key (merge_scheme key xs ys))"
  by (induction key xs ys rule: merge_scheme.induct) (auto simp: not_le less_imp_le)

lemma filter_merge_scheme:
  "sorted (map key xs) \<Longrightarrow> sorted (map key ys) \<Longrightarrow>
   filter (\<lambda>z. key z = c) (merge_scheme key xs ys) =
   filter (\<lambda>z. key z = c) xs @ filter (\<lambda>z. key z = c) ys"
proof (induction key xs ys rule: merge_scheme.induct)
  case (3 key x xs y ys)
  show ?case
  proof (cases "key x \<le> key y")
    case True
    with 3 show ?thesis by simp
  next
    case False
    have "filter (\<lambda>z. key z = key y) (x # xs) = []"
      using False "3.prems"(1) by (auto simp: filter_empty_conv)
    with False 3 show ?thesis by auto
  qed
qed auto

lemma merge_sort_scheme_correct:
  "sorted (map key (merge_sort_scheme key xs)) \<and> mset (merge_sort_scheme key xs) = mset xs
     \<and> (\<forall>c. filter (\<lambda>z. key z = c) (merge_sort_scheme key xs) = filter (\<lambda>z. key z = c) xs)"
proof (induction key xs rule: merge_sort_scheme.induct)
  case (1 key xs)
  show ?case
  proof (cases "length xs \<le> 1")
    case True
    then have "sorted (map key xs)" by (cases xs) auto
    with True show ?thesis by (subst (1 2 3) merge_sort_scheme.simps) simp
  next
    case False
    let ?l = "take (length xs div 2) xs" and ?r = "drop (length xs div 2) xs"
    note l = "1.IH"(1) [OF False] and r = "1.IH"(2) [OF False]
    have unf: "merge_sort_scheme key xs =
        merge_scheme key (merge_sort_scheme key ?l) (merge_sort_scheme key ?r)"
      using False by (subst merge_sort_scheme.simps) simp
    have "mset ?l + mset ?r = mset xs"
      by (metis append_take_drop_id mset_append)
    moreover have "filter (\<lambda>z. key z = c) ?l @ filter (\<lambda>z. key z = c) ?r =
        filter (\<lambda>z. key z = c) xs" for c
      by (metis append_take_drop_id filter_append)
    ultimately show ?thesis
      using l r by (simp add: unf sorted_merge_scheme filter_merge_scheme)
  qed
qed

lemma merge_sort_correct:
  "\<exists>r. merge_sort key xs = Some r \<and> sorted (map key r) \<and> mset r = mset xs
       \<and> (\<forall>c. filter (\<lambda>z. key z = c) r = filter (\<lambda>z. key z = c) xs)"
  using merge_sort_scheme_correct [of key xs] by (simp add: merge_sort_is_scheme)

section \<open>Correctness of \<^verbatim>\<open>quick_sort\<close> and \<^verbatim>\<open>python_sort\<close>\<close>

lemma getitem_half:
  "\<not> len a \<le> 1 \<Longrightarrow> getitem a (len a div 2) = Some (a ! (length a div 2))"
  by (auto simp: getitem_def len_def Let_def nat_div_distrib)

lemma mset_three_way:
  "mset (filter (\<lambda>x. key x < (p::'k::linorder)) a) + mset (filter (\<lambda>x. key x = p) a)
     + mset (filter (\<lambda>x. key x > p) a) = mset a"
  by (induction a) auto

lemma filter_key_filter:
  "filter (\<lambda>z. key z = c) (filter (\<lambda>x. P (key x)) a) =
     (if P c then filter (\<lambda>z. key z = c) a else [])"
  by (induction a) auto

lemma filter_three_way:
  "filter (\<lambda>z. key z = c) (filter (\<lambda>x. key x < (p::'k::linorder)) a)
     @ filter (\<lambda>z. key z = c) (filter (\<lambda>x. key x = p) a)
     @ filter (\<lambda>z. key z = c) (filter (\<lambda>x. key x > p) a) = filter (\<lambda>z. key z = c) a"
  using filter_key_filter [of key c "\<lambda>k. k < p" a] filter_key_filter [of key c "\<lambda>k. k = p" a]
    filter_key_filter [of key c "\<lambda>k. k > p" a]
  by (cases "c < p"; cases "c = p") (auto simp del: filter_filter)

lemma quick_sort_correct:
  "\<exists>r. quick_sort key xs = Some r \<and> sorted (map key r) \<and> mset r = mset xs
       \<and> (\<forall>c. filter (\<lambda>z. key z = c) r = filter (\<lambda>z. key z = c) xs)"
proof (induction key xs rule: quick_sort.induct)
  case (1 key arr)
  show ?case
  proof (cases "len arr \<le> 1")
    case True
    then have "sorted (map key arr)" by (cases arr) (auto simp: len_def)
    with True show ?thesis by (subst quick_sort.simps) simp
  next
    case False
    define p where "p = arr ! (length arr div 2)"
    let ?left = "filter (\<lambda>x. key x < key p) arr"
    let ?middle = "filter (\<lambda>x. key x = key p) arr"
    let ?right = "filter (\<lambda>x. key x > key p) arr"
    have piv: "getitem arr (len arr div 2) = Some p"
      using False by (simp add: getitem_half p_def)
    from "1.IH"(1) [OF refl False piv refl refl refl]
    obtain l where l: "quick_sort key ?left = Some l" "sorted (map key l)"
      "mset l = mset ?left" "\<forall>c. filter (\<lambda>z. key z = c) l = filter (\<lambda>z. key z = c) ?left"
      by blast
    from "1.IH"(2) [OF refl False piv refl refl refl l(1)]
    obtain r where r: "quick_sort key ?right = Some r" "sorted (map key r)"
      "mset r = mset ?right" "\<forall>c. filter (\<lambda>z. key z = c) r = filter (\<lambda>z. key z = c) ?right"
      by blast
    have res: "quick_sort key arr = Some (l @ ?middle @ r)"
      by (subst quick_sort.simps) (use False piv l(1) r(1) in simp)
    have setl: "set l = set ?left" by (metis l(3) set_mset_mset)
    have setr: "set r = set ?right" by (metis r(3) set_mset_mset)
    have kl: "key x < key p" if "x \<in> set l" for x
      using that setl by simp
    have kr: "key p < key y" if "y \<in> set r" for y
      using that setr by simp
    have km: "key x = key p" if "x \<in> set ?middle" for x
      using that by simp
    have mid: "sorted (map key ?middle)" by (induction arr) auto
    have "sorted (map key (?middle @ r))"
      unfolding map_append sorted_append set_map
    proof (intro conjI ballI)
      fix a b assume "a \<in> key ` set ?middle" "b \<in> key ` set r"
      then obtain x y where "x \<in> set ?middle" "a = key x" "y \<in> set r" "b = key y"
        by blast
      then show "a \<le> b" using km [of x] kr [of y] by simp
    qed (rule mid, rule r(2))
    moreover have "key x \<le> key y" if "x \<in> set l" "y \<in> set (?middle @ r)" for x y
    proof (cases "y \<in> set r")
      case True
      then show ?thesis using kl [OF that(1)] kr [of y] by simp
    next
      case False
      then have "y \<in> set ?middle" using that(2) by simp
      then show ?thesis using kl [OF that(1)] km [of y] by simp
    qed
    ultimately have "sorted (map key (l @ ?middle @ r))"
      using l(2) by (subst map_append, subst sorted_append) (simp del: map_append)
    moreover have "mset (l @ ?middle @ r) = mset arr"
      using mset_three_way [of key "key p" arr] by (simp add: l(3) r(3) ac_simps)
    moreover have "filter (\<lambda>z. key z = c) (l @ ?middle @ r) = filter (\<lambda>z. key z = c) arr" for c
      using filter_three_way [of key c "key p" arr] l(4) r(4) by simp
    ultimately show ?thesis using res by simp
  qed
qed

lemma python_sort_correct:
  "\<exists>r. python_sort key xs = Some r \<and> sorted (map key r) \<and> mset r = mset xs
       \<and> (\<forall>c. filter (\<lambda>z. key z = c) r = filter (\<lambda>z. key z = c) xs)"
  by (simp add: python_sort_def sorted_builtin_def sort_key_stable)

text \<open>A sorted, stable rearrangement is the result of the reference sort.\<close>

lemma stable_sorted_unique:
  assumes "sorted (map key r)" and "mset r = mset xs"
    and "\<forall>c. filter (\<lambda>z. key z = c) r = filter (\<lambda>z. key z = c) xs"
  shows "r = sorted_builtin key xs"
proof -
  have "sort_key key xs = r"
  proof (rule properties_for_sort_key)
    show "mset r = mset xs" by fact
    show "sorted (map key r)" by fact
    show "filter (\<lambda>x. key k = key x) r = filter (\<lambda>x. key k = key x) xs" for k
      using assms(3) by (simp add: eq_commute [of "key k"])
  qed
  then show ?thesis by (simp add: sorted_builtin_def)
qed

section \<open>The claims about the sorting functions\<close>

lemma reference_if_correct:
  assumes "\<exists>r. res = Some r \<and> sorted (map key r) \<and> mset r = mset xs
       \<and> (\<forall>c. filter (\<lambda>z. key z = c) r = filter (\<lambda>z. key z = c) xs)"
  shows "res = Some (sorted_builtin key xs)"
  using assms stable_sorted_unique [of key _ xs] by blast

lemma stable_if_correct:
  assumes "\<exists>r. res = Some r \<and> sorted (map key r) \<and> mset r = mset xs
       \<and> (\<forall>c. filter (\<lambda>z. key z = c) r = filter (\<lambda>z. key z = c) xs)"
  shows "\<exists>r. res = Some r \<and> (\<forall>c. filter (\<lambda>z. key z = c) r = filter (\<lambda>z. key z = c) xs)"
  using assms by blast

lemma returns_if_correct:
  assumes "\<exists>r. res = Some r \<and> sorted (map key r) \<and> mset r = mset xs
       \<and> (\<forall>c. filter (\<lambda>z. key z = c) r = filter (\<lambda>z. key z = c) xs)"
  shows "\<exists>r. res = Some r"
  using assms by blast


text \<open>
  C3. \<open>bubble_sort\<close>, \<open>insertion_sort\<close>, \<open>merge_sort\<close> and \<open>python_sort\<close> are stable: for
  every key value \<open>c\<close>, the elements of key \<open>c\<close> stand in the output in the order in which
  they stand in the input.
\<close>

theorem four_sorts_stable:
  "(\<exists>r. bubble_sort key a = Some r \<and>
        (\<forall>c. filter (\<lambda>z. key z = c) r = filter (\<lambda>z. key z = c) a)) \<and>
   (\<exists>r. insertion_sort key a = Some r \<and>
        (\<forall>c. filter (\<lambda>z. key z = c) r = filter (\<lambda>z. key z = c) a)) \<and>
   (\<exists>r. merge_sort key a = Some r \<and>
        (\<forall>c. filter (\<lambda>z. key z = c) r = filter (\<lambda>z. key z = c) a)) \<and>
   (\<exists>r. python_sort key a = Some r \<and>
        (\<forall>c. filter (\<lambda>z. key z = c) r = filter (\<lambda>z. key z = c) a))"
proof (intro conjI)
  show "\<exists>r. bubble_sort key a = Some r \<and>
        (\<forall>c. filter (\<lambda>z. key z = c) r = filter (\<lambda>z. key z = c) a)"
    by (rule stable_if_correct [OF bubble_sort_correct])
  show "\<exists>r. insertion_sort key a = Some r \<and>
        (\<forall>c. filter (\<lambda>z. key z = c) r = filter (\<lambda>z. key z = c) a)"
    by (rule stable_if_correct [OF insertion_sort_correct])
  show "\<exists>r. merge_sort key a = Some r \<and>
        (\<forall>c. filter (\<lambda>z. key z = c) r = filter (\<lambda>z. key z = c) a)"
    by (rule stable_if_correct [OF merge_sort_correct])
  show "\<exists>r. python_sort key a = Some r \<and>
        (\<forall>c. filter (\<lambda>z. key z = c) r = filter (\<lambda>z. key z = c) a)"
    by (rule stable_if_correct [OF python_sort_correct])
qed

text \<open>
  C4, as the specification states it: there is an input on which \<open>quick_sort\<close> changes
  the relative order of elements that compare equal. It is refuted: no key function, input
  and key value exist for which the elements of that key stand in another order in the
  output. Elements here are pairs of an integer and a string, compared through any key.
\<close>

theorem quick_sort_unstable_refuted:
  "\<not> (\<exists>(key :: int \<times> string \<Rightarrow> int) a r c.
        quick_sort key a = Some r \<and>
        filter (\<lambda>z. key z = c) r \<noteq> filter (\<lambda>z. key z = c) a)"
proof
  assume "\<exists>(key :: int \<times> string \<Rightarrow> int) a r c.
        quick_sort key a = Some r \<and>
        filter (\<lambda>z. key z = c) r \<noteq> filter (\<lambda>z. key z = c) a"
  then obtain key :: "int \<times> string \<Rightarrow> int" and a r c where
    bad: "quick_sort key a = Some r" "filter (\<lambda>z. key z = c) r \<noteq> filter (\<lambda>z. key z = c) a"
    by blast
  from stable_if_correct [OF quick_sort_correct, of key a] bad(1)
  have "filter (\<lambda>z. key z = c) r = filter (\<lambda>z. key z = c) a" by simp
  with bad(2) show False by simp
qed

text \<open>
  C4, amended: the three-way partition of \<open>quick_sort\<close> keeps the relative order of
  elements that compare equal, on every input.
\<close>

theorem quick_sort_keeps_order:
  "\<exists>r. quick_sort key a = Some r \<and>
       (\<forall>c. filter (\<lambda>z. key z = c) r = filter (\<lambda>z. key z = c) a)"
  by (rule stable_if_correct [OF quick_sort_correct])

text \<open>
  C5. \<open>merge_sort\<close> follows the scheme of the specification (\<open>merge_sort_scheme\<close>: a list
  of length at most one is returned as it is; a longer one is split at \<open>length div 2\<close>, both
  halves are sorted recursively and merged), and \<open>_merge\<close> follows \<open>merge_scheme\<close>: it takes
  the lesser front element, the left one when the two fronts compare equal.
\<close>

theorem merge_sort_follows_scheme:
  "merge_sort key a = Some (merge_sort_scheme key a) \<and>
   merge_lists key left right = Some (merge_scheme key left right)"
  by (simp add: merge_sort_is_scheme merge_lists_scheme)

subsection \<open>The recursion limit\<close>

lemma of_option_Some [simp]: "of_option (Some v) = Inr v"
  by (simp add: of_option_def)





















text \<open>
  C10. Let \<open>t\<close> be the states of \<open>bubble_sort\<close> at the end of its completed passes, and
  \<open>i\<close> one of these passes (counted from 0). The function returns the last state. At the
  end of pass \<open>i\<close> the last \<open>i + 1\<close> positions of the working copy hold what the sorted
  list holds there (the \<open>i + 1\<close> greatest elements, in their final places), and every later
  pass leaves these positions as they are. If pass \<open>i\<close> made no swap, it is the last pass,
  its state is the result, and each of the passes that the \<^verbatim>\<open>break\<close> skips (passes
  \<open>i'\<close> with \<open>i < i' < n\<close>) would run without a swap and leave the list unchanged.
\<close>

theorem bubble_sort_passes:
  assumes "t = bubble_trace key a (len a) 0" and "i < length t"
  shows "bubble_sort key a = Some (last (a # map fst t)) \<and>
     drop (length a - Suc i) (fst (t ! i)) = drop (length a - Suc i) (sorted_builtin key a) \<and>
     (\<forall>j. i \<le> j \<and> j < length t \<longrightarrow>
        drop (length a - Suc i) (fst (t ! j)) = drop (length a - Suc i) (fst (t ! i))) \<and>
     (\<not> snd (t ! i) \<longrightarrow>
        Suc i = length t \<and> bubble_sort key a = Some (fst (t ! i)) \<and>
        (\<forall>i'. int i < i' \<and> i' < len a \<longrightarrow>
           bubble_inner key (fst (t ! i)) 0 (len a - 1 - i') False = Some (fst (t ! i), False)))"
proof -
  let ?R = "last (a # map fst t)"
  have tr: "bubble_outer key a (len a) 0 = Some ?R"
    "\<forall>k < length t. drop (length a - Suc k) (fst (t ! k)) = drop (length a - Suc k) ?R
        \<and> (\<not> snd (t ! k) \<longrightarrow> Suc k = length t)"
    using bubble_trace_correct [of key "[]" a t] assms(1) by simp_all
  have res: "bubble_sort key a = Some ?R" using tr(1) by (simp add: bubble_sort_def)
  have ref: "?R = sorted_builtin key a"
    using reference_if_correct [OF bubble_sort_correct, of key a] res by simp
  have at: "drop (length a - Suc k) (fst (t ! k)) = drop (length a - Suc k) ?R" if "k < length t" for k
    using tr(2) that by blast
  have later: "drop (length a - Suc i) (fst (t ! j)) = drop (length a - Suc i) (fst (t ! i))"
    if j: "i \<le> j" "j < length t" for j
  proof -
    have eq: "length a - Suc i = (length a - Suc i - (length a - Suc j)) + (length a - Suc j)"
      using j by arith
    have "drop (length a - Suc i) (fst (t ! j)) =
        drop (length a - Suc i - (length a - Suc j)) (drop (length a - Suc j) (fst (t ! j)))"
      unfolding drop_drop by (simp only: eq [symmetric])
    also have "\<dots> = drop (length a - Suc i - (length a - Suc j)) (drop (length a - Suc j) ?R)"
      using at [OF j(2)] by simp
    also have "\<dots> = drop (length a - Suc i) ?R"
      unfolding drop_drop by (simp only: eq [symmetric])
    finally show ?thesis using at [OF assms(2)] by simp
  qed
  have idle: "Suc i = length t \<and> bubble_sort key a = Some (fst (t ! i)) \<and>
        (\<forall>i'. int i < i' \<and> i' < len a \<longrightarrow>
           bubble_inner key (fst (t ! i)) 0 (len a - 1 - i') False = Some (fst (t ! i), False))"
    if ns: "\<not> snd (t ! i)"
  proof -
    have l: "Suc i = length t" using tr(2) assms(2) ns by blast
    then have "t \<noteq> []" by auto
    then have "?R = fst (last t)" by (simp add: last_map)
    also have "last t = t ! i"
    proof -
      have "length t - 1 = i" using l by simp
      with \<open>t \<noteq> []\<close> show ?thesis by (simp add: last_conv_nth)
    qed
    finally have R: "?R = fst (t ! i)" .
    have "sorted (map key (sorted_builtin key a))" by (simp add: sorted_builtin_def)
    then have srt: "sorted (map key (fst (t ! i)))"
      unfolding ref [symmetric] R .
    have "length ?R = length a" unfolding ref by (simp add: sorted_builtin_def)
    then have len: "len (fst (t ! i)) = len a" using R by (simp add: len_def)
    have "bubble_inner key (fst (t ! i)) 0 (len a - 1 - i') False = Some (fst (t ! i), False)"
      if "int i < i'" "i' < len a" for i'
      by (rule bubble_inner_idle [OF srt]) (use that len in auto)
    then show ?thesis using l res R by simp
  qed
  show ?thesis using res at [OF assms(2)] ref later idle by simp
qed

theorem bubble_sort_passes_witness:
  "1 < length (bubble_trace (\<lambda>x. x) [3, 1, 2 :: int] (len [3, 1, 2 :: int]) 0) \<and>
   \<not> snd (bubble_trace (\<lambda>x. x) [3, 1, 2 :: int] (len [3, 1, 2 :: int]) 0 ! 1) \<and>
   bubble_sort (\<lambda>x. x) [3, 1, 2 :: int] = Some [1, 2, 3] \<and>
   drop 1 [1, 2, 3] = drop 1 (sorted_builtin (\<lambda>x. x) [3, 1, 2 :: int]) \<and>
   bubble_inner (\<lambda>x. x) [1, 2, 3 :: int] 0 0 False = Some ([1, 2, 3], False)"
proof -
  have t: "bubble_trace (\<lambda>x. x) [3, 1, 2 :: int] (len [3, 1, 2 :: int]) 0 =
      [([1, 2, 3], True), ([1, 2, 3], False)]"
    by code_simp
  have h: "(1::nat) < length [([1, 2, 3 :: int], True), ([1, 2, 3], False)]" by simp
  note th = bubble_sort_passes [OF t [symmetric] h]
  have s: "sorted_builtin (\<lambda>x. x) [3, 1, 2 :: int] = [1, 2, 3]"
    by (simp add: sorted_builtin_def)
  from th have 1: "bubble_sort (\<lambda>x. x) [3, 1, 2 :: int] = Some [1, 2, 3]" by (simp add: s)
  from th have "\<forall>i'. int 1 < i' \<and> i' < len [3, 1, 2 :: int] \<longrightarrow>
      bubble_inner (\<lambda>x. x) [1, 2, 3 :: int] 0 (len [3, 1, 2 :: int] - 1 - i') False =
        Some ([1, 2, 3], False)"
    by (simp add: s)
  from this [rule_format, of 2]
  have 2: "bubble_inner (\<lambda>x. x) [1, 2, 3 :: int] 0 0 False = Some ([1, 2, 3], False)"
    by (simp add: len_def)
  show ?thesis unfolding t using 1 2 by (simp add: s)
qed


section \<open>The benchmark harness\<close>

text \<open>
  The model of \<^verbatim>\<open>experiments/experiment.py\<close>. Exceptions are values of \<open>py_error\<close>.
  What the program takes from its platform is the environment \<open>env\<close>:
  \<^item> \<open>rand e s k lo hi\<close> is what the \<open>k\<close>-th call of \<^verbatim>\<open>random.randint(lo, hi)\<close> after
    \<^verbatim>\<open>random.seed(s)\<close> returns;
  \<^item> \<open>elapsed e k\<close> is the difference of the two clock readings of the \<open>k\<close>-th call of
    \<^verbatim>\<open>time_function\<close>, a float;
  \<^item> \<open>to_float e x\<close> is the float that the library returns for the exact number \<open>x\<close>, and
    \<open>sqrt_float e v\<close> the float that it returns for the square root of the exact number \<open>v\<close>
    (floats are the real numbers that they denote; nothing is assumed about the rounding);
  \<^item> \<open>int_of e s\<close> is what the built-in \<^verbatim>\<open>int(s)\<close> returns for the string \<open>s\<close>, \<open>None\<close> when
    it raises \<^verbatim>\<open>ValueError\<close>;
  \<^item> \<open>save e outdir res\<close> is how creating the output directory, writing the CSV file and
    drawing and saving the chart end (lines 73 to 108 of \<^verbatim>\<open>run_experiments\<close>): \<open>None\<close>
    when nothing is raised, the exception otherwise.

  The state \<open>world\<close> counts the calls of the random generator and of \<^verbatim>\<open>time_function\<close>.
  \<open>run_experiments\<close> below is the measurement (lines 41 to 71) and returns the dictionary
  \<^verbatim>\<open>results\<close>; \<open>main\<close> runs it and then \<open>save\<close>.
\<close>

text \<open>A size is a Python number: \<^verbatim>\<open>2 ** p\<close> is a float when \<open>p\<close> is negative.\<close>

datatype py_num = PyInt int | PyFloat real

type_synonym row = "py_num \<times> real \<times> real"

type_synonym results = "(string \<times> row list) list"

record env =
  rand :: "int \<Rightarrow> nat \<Rightarrow> int \<Rightarrow> int \<Rightarrow> int"
  elapsed :: "nat \<Rightarrow> real"
  to_float :: "real \<Rightarrow> real"
  sqrt_float :: "real \<Rightarrow> real"
  int_of :: "string \<Rightarrow> int option"
  save :: "string option \<Rightarrow> results \<Rightarrow> py_error option"

record world =
  draws :: nat
  timings :: nat

text \<open>
  \<^verbatim>\<open>statistics.mean\<close> and \<^verbatim>\<open>statistics.pstdev\<close> of the standard library (CPython 3.11
  and later), on floats. Both raise \<^verbatim>\<open>StatisticsError\<close> on empty data. The library adds
  the data as exact fractions: the mean is the exact sum divided by the number of data,
  converted to a float once, at the end. The population standard deviation is the square
  root, as a float, of the exact population variance: the exact sum of the squared
  deviations from the exact mean, divided by the number of data.
\<close>

definition mean :: "env \<Rightarrow> real list \<Rightarrow> py_error + real" where
  "mean e xs =
     (if xs = [] then Inl StatisticsError
      else Inr (to_float e (sum_list xs / real (length xs))))"

definition pstdev :: "env \<Rightarrow> real list \<Rightarrow> py_error + real" where
  "pstdev e xs =
     (if xs = [] then Inl StatisticsError
      else
        (let mu = sum_list xs / real (length xs)
         in Inr (sqrt_float e (sum_list (map (\<lambda>x. (x - mu)\<^sup>2) xs) / real (length xs)))))"

text \<open>\<^verbatim>\<open>s <= 1024\<close> for a Python number \<open>s\<close>.\<close>

fun num_le :: "py_num \<Rightarrow> int \<Rightarrow> bool" where
  "num_le (PyInt i) k = (i \<le> k)"
| "num_le (PyFloat r) k = (r \<le> real_of_int k)"

definition time_function ::
  "env \<Rightarrow> (int list \<Rightarrow> int list option) \<Rightarrow> int list \<Rightarrow> world \<Rightarrow> py_error + (real \<times> world)" where
  "time_function e func arr w =
     (case func arr of
        None \<Rightarrow> Inl IndexError
      | Some _ \<Rightarrow> Inr (elapsed e (timings w), w\<lparr>timings := Suc (timings w)\<rparr>))"

text \<open>\<^verbatim>\<open>[random.randint(0, n * 10) for _ in range(n)]\<close>; \<^verbatim>\<open>range\<close> of a float raises.\<close>

fun random_array :: "env \<Rightarrow> int \<Rightarrow> py_num \<Rightarrow> world \<Rightarrow> py_error + (int list \<times> world)" where
  "random_array e seed (PyFloat r) w = Inl TypeError"
| "random_array e seed (PyInt n) w =
     Inr (map (\<lambda>k. rand e seed (draws w + k) 0 (n * 10)) [0..<nat n],
          w\<lparr>draws := draws w + nat n\<rparr>)"

text \<open>The loop \<^verbatim>\<open>for _ in range(trials)\<close> with \<open>c\<close> iterations left; \<open>ts\<close> is the list
  \<^verbatim>\<open>times\<close>.\<close>

fun trials_loop ::
  "env \<Rightarrow> int \<Rightarrow> (int list \<Rightarrow> int list option) \<Rightarrow> py_num \<Rightarrow> nat \<Rightarrow> real list \<Rightarrow> world
     \<Rightarrow> py_error + (real list \<times> world)" where
  "trials_loop e seed func n 0 ts w = Inr (ts, w)"
| "trials_loop e seed func n (Suc c) ts w =
     (case random_array e seed n w of
        Inl err \<Rightarrow> Inl err
      | Inr (arr, w1) \<Rightarrow>
          (case time_function e func arr w1 of
             Inl err \<Rightarrow> Inl err
           | Inr (t, w2) \<Rightarrow> trials_loop e seed func n c (ts @ [t]) w2))"

text \<open>\<^verbatim>\<open>results[name].append(row)\<close>.\<close>

definition dict_append :: "string \<Rightarrow> row \<Rightarrow> results \<Rightarrow> results" where
  "dict_append name r res = map (\<lambda>(k, rows). if k = name then (k, rows @ [r]) else (k, rows)) res"

text \<open>The loop \<^verbatim>\<open>for n in tqdm(sizes_to_run, desc=name)\<close>.\<close>

fun sizes_loop ::
  "env \<Rightarrow> int \<Rightarrow> string \<Rightarrow> (int list \<Rightarrow> int list option) \<Rightarrow> int \<Rightarrow> py_num list \<Rightarrow> results \<Rightarrow> world
     \<Rightarrow> py_error + (results \<times> world)" where
  "sizes_loop e seed name func trials [] res w = Inr (res, w)"
| "sizes_loop e seed name func trials (n # ns) res w =
     (case trials_loop e seed func n (nat trials) [] w of
        Inl err \<Rightarrow> Inl err
      | Inr (ts, w1) \<Rightarrow>
          (case mean e ts of
             Inl err \<Rightarrow> Inl err
           | Inr avg \<Rightarrow>
               (case pstdev e ts of
                  Inl err \<Rightarrow> Inl err
                | Inr stdev \<Rightarrow>
                    sizes_loop e seed name func trials ns
                      (dict_append name (n, avg, stdev) res) w1)))"

text \<open>The loop \<^verbatim>\<open>for name, func in algos.items()\<close>.\<close>

fun algos_loop ::
  "env \<Rightarrow> int \<Rightarrow> int \<Rightarrow> py_num list \<Rightarrow> (string \<times> (int list \<Rightarrow> int list option)) list \<Rightarrow> results
     \<Rightarrow> world \<Rightarrow> py_error + (results \<times> world)" where
  "algos_loop e seed trials sizes [] res w = Inr (res, w)"
| "algos_loop e seed trials sizes ((name, func) # rest) res w =
     (let sizes_to_run =
            (if name \<in> {''Bubble'', ''Insertion''} then filter (\<lambda>s. num_le s 1024) sizes
             else sizes)
      in case sizes_loop e seed name func trials sizes_to_run res w of
           Inl err \<Rightarrow> Inl err
         | Inr (res1, w1) \<Rightarrow> algos_loop e seed trials sizes rest res1 w1)"

definition algos :: "(string \<times> (int list \<Rightarrow> int list option)) list" where
  "algos =
     [(''Bubble'', bubble_sort (\<lambda>x. x)),
      (''Insertion'', insertion_sort (\<lambda>x. x)),
      (''Merge'', merge_sort (\<lambda>x. x)),
      (''Quick'', quick_sort (\<lambda>x. x)),
      (''Timsort'', python_sort (\<lambda>x. x))]"

definition run_experiments ::
  "env \<Rightarrow> py_num list option \<Rightarrow> int \<Rightarrow> int \<Rightarrow> world \<Rightarrow> py_error + (results \<times> world)" where
  "run_experiments e sizes trials seed w =
     (let w0 = w\<lparr>draws := 0\<rparr>;
          sizes1 = (case sizes of
                      None \<Rightarrow> map PyInt [128, 256, 512, 1024, 2048, 4096]
                    | Some s \<Rightarrow> s);
          res0 = map (\<lambda>(name, func). (name, [])) algos
      in algos_loop e seed trials sizes1 algos res0 w0)"

subsection \<open>What a run records\<close>

text \<open>What \<^verbatim>\<open>statistics.mean\<close> and \<^verbatim>\<open>statistics.pstdev\<close> return for the times \<open>ts\<close>.\<close>

definition aggregate :: "env \<Rightarrow> real list \<Rightarrow> real \<times> real" where
  "aggregate e ts =
     (let mu = sum_list ts / real (length ts)
      in (to_float e mu, sqrt_float e (sum_list (map (\<lambda>x. (x - mu)\<^sup>2) ts) / real (length ts))))"

text \<open>The rows that a run over the sizes \<open>ns\<close> appends, from timing number \<open>k\<close> on, with
  \<open>c\<close> trials for each size.\<close>

fun measured_rows :: "env \<Rightarrow> nat \<Rightarrow> nat \<Rightarrow> int list \<Rightarrow> row list" where
  "measured_rows e c k [] = []"
| "measured_rows e c k (n # ns) =
     (PyInt n, aggregate e (map (elapsed e) [k..<k + c])) # measured_rows e c (k + c) ns"

text \<open>The sizes that the source runs for an algorithm, and the requested sizes.\<close>

definition sizes_to_run :: "string \<Rightarrow> int list \<Rightarrow> int list" where
  "sizes_to_run name sizes =
     (if name \<in> {''Bubble'', ''Insertion''} then filter (\<lambda>s. s \<le> 1024) sizes else sizes)"

definition requested :: "int list option \<Rightarrow> int list" where
  "requested sizes = (case sizes of None \<Rightarrow> [128, 256, 512, 1024, 2048, 4096] | Some s \<Rightarrow> s)"

text \<open>The number of pairs of algorithm and size that are measured before the first pair of
  the algorithm \<open>name\<close>, when the algorithms run in the order \<open>names\<close>.\<close>

fun pairs_before :: "string list \<Rightarrow> string \<Rightarrow> int list \<Rightarrow> nat" where
  "pairs_before [] name sizes = 0"
| "pairs_before (n # ns) name sizes =
     (if n = name then 0 else length (sizes_to_run n sizes) + pairs_before ns name sizes)"

text \<open>The names of the algorithms, in the order in which they run.\<close>

definition algo_names :: "string list" where
  "algo_names = [''Bubble'', ''Insertion'', ''Merge'', ''Quick'', ''Timsort'']"

text \<open>The dictionary \<^verbatim>\<open>results\<close> of a run that measured nothing.\<close>

definition no_measurements :: results where
  "no_measurements =
     [(''Bubble'', []), (''Insertion'', []), (''Merge'', []), (''Quick'', []), (''Timsort'', [])]"

section \<open>The command line\<close>

text \<open>
  \<^verbatim>\<open>main\<close> hands the command line to \<^verbatim>\<open>argparse\<close>. The scanning of the command line into
  options and their argument strings is the library's. The model starts from its outcome
  for a command line on which each of the five options occurs at most once, with its
  argument, and nothing else: the argument string given for each option (\<open>None\<close> when the
  option is absent). It models the conversion \<^verbatim>\<open>type=int\<close> (the parser calls \<^verbatim>\<open>int\<close> on the
  string and ends the program with a usage error and exit status 2 when that raises), the
  defaults, and what \<^verbatim>\<open>main\<close> does with the values.
\<close>

record raw_args =
  raw_min_power :: "string option"
  raw_max_power :: "string option"
  raw_trials :: "string option"
  raw_seed :: "string option"
  raw_outdir :: "string option"

record args =
  args_min_power :: int
  args_max_power :: int
  args_trials :: int
  args_seed :: int
  args_outdir :: "string option"

text \<open>An option of \<^verbatim>\<open>type=int\<close> with a default; \<open>None\<close> is the parser's usage error.\<close>

definition int_option :: "env \<Rightarrow> string option \<Rightarrow> int \<Rightarrow> int option" where
  "int_option e raw dflt = (case raw of None \<Rightarrow> Some dflt | Some s \<Rightarrow> int_of e s)"

definition parse_args :: "env \<Rightarrow> raw_args \<Rightarrow> args option" where
  "parse_args e raw =
     do {
       mn \<leftarrow> int_option e (raw_min_power raw) 7;
       mx \<leftarrow> int_option e (raw_max_power raw) 12;
       t \<leftarrow> int_option e (raw_trials raw) 3;
       s \<leftarrow> int_option e (raw_seed raw) 0;
       Some \<lparr>args_min_power = mn, args_max_power = mx, args_trials = t, args_seed = s,
             args_outdir = raw_outdir raw\<rparr>
     }"

text \<open>\<^verbatim>\<open>2 ** p\<close>: an integer for \<open>p \<ge> 0\<close>, a float otherwise (a power of two that a double
  holds exactly down to \<open>p = -1074\<close>).\<close>

definition pow2 :: "int \<Rightarrow> py_num" where
  "pow2 p = (if 0 \<le> p then PyInt (2 ^ nat p) else PyFloat (1 / 2 ^ nat (- p)))"

text \<open>
  How a run of the program ends: the parser's usage error with its exit status, an
  exception that nothing catches (exit status 1), or the completed run with the results
  it wrote (exit status 0).
\<close>

datatype outcome = UsageError int | Crashed py_error | Completed results

fun exit_status :: "outcome \<Rightarrow> int" where
  "exit_status (UsageError n) = n"
| "exit_status (Crashed err) = 1"
| "exit_status (Completed res) = 0"

definition main :: "env \<Rightarrow> raw_args \<Rightarrow> world \<Rightarrow> outcome" where
  "main e raw w =
     (case parse_args e raw of
        None \<Rightarrow> UsageError 2
      | Some a \<Rightarrow>
          (let sizes = map pow2 [args_min_power a..args_max_power a]
           in case run_experiments e (Some sizes) (args_trials a) (args_seed a) w of
                Inl err \<Rightarrow> Crashed err
              | Inr (res, w') \<Rightarrow>
                  (case save e (args_outdir a) res of
                     Some err \<Rightarrow> Crashed err
                   | None \<Rightarrow> Completed res)))"

section \<open>Properties of the harness and of the command line\<close>

lemma mean_pstdev_aggregate:
  "ts \<noteq> [] \<Longrightarrow> mean e ts = Inr (fst (aggregate e ts)) \<and> pstdev e ts = Inr (snd (aggregate e ts))"
  by (simp add: mean_def pstdev_def aggregate_def Let_def)

lemma trials_loop_total:
  assumes "\<forall>arr. func arr \<noteq> None"
  shows "\<exists>w'. trials_loop e seed func (PyInt n) c ts w =
            Inr (ts @ map (elapsed e) [timings w..<timings w + c], w')
          \<and> timings w' = timings w + c"
proof (induction c arbitrary: ts w)
  case 0
  then show ?case by simp
next
  case (Suc c)
  let ?arr = "map (\<lambda>k. rand e seed (draws w + k) 0 (n * 10)) [0..<nat n]"
  let ?w1 = "w\<lparr>draws := draws w + nat n\<rparr>"
  let ?w2 = "?w1\<lparr>timings := Suc (timings ?w1)\<rparr>"
  obtain r where r: "func ?arr = Some r" using spec [OF assms, of ?arr] by auto
  have tf: "time_function e func ?arr ?w1 = Inr (elapsed e (timings w), ?w2)"
    by (simp add: time_function_def r)
  from Suc.IH [of "ts @ [elapsed e (timings w)]" ?w2]
  obtain w' where w': "trials_loop e seed func (PyInt n) c (ts @ [elapsed e (timings w)]) ?w2 =
      Inr ((ts @ [elapsed e (timings w)]) @ map (elapsed e) [timings ?w2..<timings ?w2 + c], w')"
    "timings w' = timings ?w2 + c"
    by blast
  have "[timings w..<timings w + Suc c] = timings w # [Suc (timings w)..<Suc (timings w) + c]"
    by (simp add: upt_conv_Cons)
  then show ?case using w' tf by simp
qed

lemma sizes_loop_total:
  assumes "\<forall>arr. func arr \<noteq> None" and "0 < trials"
  shows "\<exists>w'. sizes_loop e seed name func trials (map PyInt ns) res w =
            Inr (foldl (\<lambda>r x. dict_append name x r) res
                   (measured_rows e (nat trials) (timings w) ns), w')
          \<and> timings w' = timings w + nat trials * length ns"
proof (induction ns arbitrary: res w)
  case Nil
  then show ?case by simp
next
  case (Cons n ns)
  let ?ts = "map (elapsed e) [timings w..<timings w + nat trials]"
  from trials_loop_total [OF assms(1), of e seed n "nat trials" "[]" w]
  obtain w1 where w1: "trials_loop e seed func (PyInt n) (nat trials) [] w = Inr (?ts, w1)"
    "timings w1 = timings w + nat trials"
    by auto
  have "?ts \<noteq> []" using assms(2) by simp
  note agg = mean_pstdev_aggregate [OF this, of e]
  from Cons.IH [of "dict_append name (PyInt n, aggregate e ?ts) res" w1]
  obtain w' where w': "sizes_loop e seed name func trials (map PyInt ns)
        (dict_append name (PyInt n, aggregate e ?ts) res) w1 =
      Inr (foldl (\<lambda>r x. dict_append name x r) (dict_append name (PyInt n, aggregate e ?ts) res)
             (measured_rows e (nat trials) (timings w1) ns), w')"
    and t': "timings w' = timings w1 + nat trials * length ns"
    by blast
  have t: "timings w' = timings w + nat trials * length (n # ns)"
    using t' w1(2) by simp
  have "sizes_loop e seed name func trials (map PyInt (n # ns)) res w =
      Inr (foldl (\<lambda>r x. dict_append name x r) res
             (measured_rows e (nat trials) (timings w) (n # ns)), w')"
    using w1 agg w' by simp
  with t show ?case by blast
qed

lemma map_of_dict_append:
  "map_of (dict_append name r res) k =
     (if k = name then map_option (\<lambda>rows. rows @ [r]) (map_of res k) else map_of res k)"
  by (induction res) (auto simp: dict_append_def)

lemma map_fst_dict_append [simp]: "map fst (dict_append name r res) = map fst res"
  by (induction res) (auto simp: dict_append_def)

lemma map_of_foldl_dict_append:
  "map_of (foldl (\<lambda>r x. dict_append name x r) res rows) k =
     (if k = name then map_option (\<lambda>old. old @ rows) (map_of res k) else map_of res k)"
proof (induction rows arbitrary: res)
  case Nil
  show ?case by (simp add: option.map_ident)
next
  case (Cons x rows)
  show ?case
    by (simp add: Cons.IH map_of_dict_append option.map_comp comp_def)
qed

lemma map_fst_foldl_dict_append [simp]:
  "map fst (foldl (\<lambda>r x. dict_append name x r) res rows) = map fst res"
  by (induction rows arbitrary: res) auto

lemma filter_num_le: "filter (\<lambda>s. num_le s k) (map PyInt sizes) = map PyInt (filter (\<lambda>s. s \<le> k) sizes)"
  by (induction sizes) auto

lemma algos_loop_total:
  assumes "\<forall>(name, func) \<in> set as. \<forall>arr. func arr \<noteq> None"
    and "distinct (map fst as)" and "0 < trials"
  shows "\<exists>res' w'. algos_loop e seed trials (map PyInt sizes) as res w = Inr (res', w')
      \<and> map fst res' = map fst res
      \<and> (\<forall>k. k \<notin> fst ` set as \<longrightarrow> map_of res' k = map_of res k)
      \<and> (\<forall>k \<in> fst ` set as.
            map_of res' k =
              map_option
                (\<lambda>old. old @ measured_rows e (nat trials)
                   (timings w + nat trials * pairs_before (map fst as) k sizes)
                   (sizes_to_run k sizes))
                (map_of res k))"
  using assms(1,2)
proof (induction as arbitrary: res w)
  case Nil
  then show ?case by simp
next
  case (Cons a as)
  obtain name func where a: "a = (name, func)" by (cases a)
  have tot: "\<forall>arr. func arr \<noteq> None" using Cons.prems(1) a by auto
  have run: "(if name \<in> {''Bubble'', ''Insertion''} then filter (\<lambda>s. num_le s 1024) (map PyInt sizes)
            else map PyInt sizes) = map PyInt (sizes_to_run name sizes)"
    by (simp add: sizes_to_run_def filter_num_le)
  let ?rows = "measured_rows e (nat trials) (timings w) (sizes_to_run name sizes)"
  let ?res1 = "foldl (\<lambda>r x. dict_append name x r) res ?rows"
  from sizes_loop_total [OF tot assms(3), of e seed name "sizes_to_run name sizes" res w]
  obtain w1 where w1: "sizes_loop e seed name func trials (map PyInt (sizes_to_run name sizes)) res w =
      Inr (?res1, w1)"
    and t1: "timings w1 = timings w + nat trials * length (sizes_to_run name sizes)"
    by blast
  have rest: "\<forall>(name, func) \<in> set as. \<forall>arr. func arr \<noteq> None" "distinct (map fst as)"
    using Cons.prems by auto
  from Cons.IH [OF rest, of ?res1 w1]
  obtain res' w' where r: "algos_loop e seed trials (map PyInt sizes) as ?res1 w1 = Inr (res', w')"
    "map fst res' = map fst ?res1"
    "\<forall>k. k \<notin> fst ` set as \<longrightarrow> map_of res' k = map_of ?res1 k"
    "\<forall>k \<in> fst ` set as. map_of res' k =
        map_option
          (\<lambda>old. old @ measured_rows e (nat trials)
             (timings w1 + nat trials * pairs_before (map fst as) k sizes) (sizes_to_run k sizes))
          (map_of ?res1 k)"
    by blast
  have fresh: "name \<notin> fst ` set as" using Cons.prems(2) a by auto
  have eq: "algos_loop e seed trials (map PyInt sizes) (a # as) res w = Inr (res', w')"
    unfolding a algos_loop.simps Let_def run using w1 r(1) by simp
  have "map_of res' k = map_of res k" if "k \<notin> fst ` set (a # as)" for k
    using that r(3) a by (simp add: map_of_foldl_dict_append)
  moreover have "map_of res' k =
        map_option
          (\<lambda>old. old @ measured_rows e (nat trials)
             (timings w + nat trials * pairs_before (map fst (a # as)) k sizes)
             (sizes_to_run k sizes))
          (map_of res k)" if k: "k \<in> fst ` set (a # as)" for k
  proof (cases "k = name")
    case True
    then have "map_of res' k = map_of ?res1 k" using r(3) fresh by simp
    then show ?thesis using True a by (simp add: map_of_foldl_dict_append)
  next
    case False
    then have "k \<in> fst ` set as" using k a by auto
    have start: "timings w1 + nat trials * pairs_before (map fst as) k sizes =
        timings w + nat trials * pairs_before (map fst (a # as)) k sizes"
      using False by (simp add: a t1 distrib_left)
    from bspec [OF r(4) \<open>k \<in> fst ` set as\<close>] False show ?thesis
      unfolding start by (simp add: map_of_foldl_dict_append)
  qed
  ultimately show ?case using eq r(2) by auto
qed

lemma algos_total: "\<forall>(name, func) \<in> set algos. \<forall>arr. func arr \<noteq> None"
  using returns_if_correct [OF bubble_sort_correct] returns_if_correct [OF insertion_sort_correct]
    returns_if_correct [OF merge_sort_correct] returns_if_correct [OF quick_sort_correct]
  by (auto simp: algos_def python_sort_def)

lemma run_experiments_total:
  assumes "0 < trials"
  obtains res w' where
    "run_experiments e (map_option (map PyInt) sizes) trials seed w = Inr (res, w')"
    "map fst res = algo_names"
    "\<forall>k \<in> set algo_names.
       map_of res k =
         Some (measured_rows e (nat trials)
                 (timings w + nat trials * pairs_before algo_names k (requested sizes))
                 (sizes_to_run k (requested sizes)))"
proof -
  let ?res0 = "map (\<lambda>(name, func). (name, [] :: row list)) algos"
  have sz: "(case map_option (map PyInt) sizes of
               None \<Rightarrow> map PyInt [128, 256, 512, 1024, 2048, 4096] | Some s \<Rightarrow> s) =
            map PyInt (requested sizes)"
    by (cases sizes) (simp_all add: requested_def)
  have names: "map fst algos = algo_names"
    by (simp add: algos_def algo_names_def)
  have d: "distinct (map fst algos)" unfolding names by (simp add: algo_names_def)
  have n0: "map fst ?res0 = map fst algos" by (simp add: algos_def)
  have m0: "map_of ?res0 k = Some []" if "k \<in> fst ` set algos" for k
    using that by (auto simp: algos_def)
  from algos_loop_total [OF algos_total d assms, of e seed "requested sizes" ?res0 "w\<lparr>draws := 0\<rparr>"]
  obtain res' w' where r:
    "algos_loop e seed trials (map PyInt (requested sizes)) algos ?res0 (w\<lparr>draws := 0\<rparr>) = Inr (res', w')"
    "map fst res' = map fst ?res0"
    "\<forall>k \<in> fst ` set algos. map_of res' k =
        map_option
          (\<lambda>old. old @ measured_rows e (nat trials)
             (timings (w\<lparr>draws := 0\<rparr>) + nat trials * pairs_before (map fst algos) k (requested sizes))
             (sizes_to_run k (requested sizes)))
          (map_of ?res0 k)"
    by blast
  have A: "run_experiments e (map_option (map PyInt) sizes) trials seed w = Inr (res', w')"
    unfolding run_experiments_def Let_def sz using r(1) by simp
  have B: "map fst res' = algo_names"
    using r(2) n0 names by simp
  have C: "map_of res' k =
      Some (measured_rows e (nat trials)
              (timings w + nat trials * pairs_before algo_names k (requested sizes))
              (sizes_to_run k (requested sizes)))"
    if "k \<in> set algo_names" for k
  proof -
    have k: "k \<in> fst ` set algos" using that names by (metis set_map)
    from bspec [OF r(3) k] m0 [OF k] show ?thesis by (simp add: names)
  qed
  show thesis
    by (rule that [OF A B]) (intro ballI C)
qed

lemma map_fst_measured_rows [simp]: "map fst (measured_rows e c k ns) = map PyInt ns"
  by (induction ns arbitrary: k) auto

lemma length_measured_rows [simp]: "length (measured_rows e c k ns) = length ns"
  by (induction ns arbitrary: k) auto

lemma nth_measured_rows:
  "j < length ns \<Longrightarrow>
   measured_rows e c k ns ! j =
     (PyInt (ns ! j), aggregate e (map (elapsed e) [k + j * c..<k + j * c + c]))"
proof (induction ns arbitrary: k j)
  case Nil
  then show ?case by simp
next
  case (Cons n ns)
  show ?case
  proof (cases j)
    case 0
    then show ?thesis by simp
  next
    case (Suc j')
    then have "j' < length ns" using Cons.prems by simp
    have idx: "k + c + j' * c = k + j * c" by (simp add: Suc)
    from Cons.IH [OF \<open>j' < length ns\<close>, of "k + c"] show ?thesis
      unfolding idx by (simp add: Suc)
  qed
qed


lemma single_row: "length rows = Suc 0 \<Longrightarrow> rows ! 0 = r \<Longrightarrow> rows = [r]"
  by (cases rows) auto

lemma sqrt_quarter: "sqrt (1 / 4) = 1 / 2"
  by (simp add: real_sqrt_divide)

lemma run_no_sizes:
  "run_experiments e (Some []) t s w = Inr (no_measurements, w\<lparr>draws := 0\<rparr>)"
  by (simp add: run_experiments_def algos_def no_measurements_def)

lemma parse_args_bad:
  assumes "raw_min_power raw = Some s \<or> raw_max_power raw = Some s
          \<or> raw_trials raw = Some s \<or> raw_seed raw = Some s"
    and "int_of e s = None"
  shows "parse_args e raw = None"
  using assms by (auto simp add: parse_args_def int_option_def split: option.splits Option.bind_splits)

lemma main_empty_range:
  assumes "parse_args e raw = Some a" and "args_max_power a < args_min_power a"
  shows "main e raw w =
     (case save e (args_outdir a) no_measurements of
        None \<Rightarrow> Completed no_measurements
      | Some err \<Rightarrow> Crashed err)"
proof -
  have "[args_min_power a..args_max_power a] = []" using assms(2) by simp
  then show ?thesis using assms(1) by (simp add: main_def run_no_sizes split: option.splits)
qed

section \<open>The claims about the harness and the command line\<close>



text \<open>
  C8. A run of \<open>run_experiments\<close> (with a positive number of trials \<open>c\<close>) records, for
  each of the five algorithms, one row for each size that the algorithm is run on, in
  order, and nothing else. The row of the \<open>j\<close>-th size of an algorithm is made from the
  elapsed times \<open>ts\<close> of the \<open>c\<close> calls of \<^verbatim>\<open>time_function\<close> of that pair of algorithm and
  size (the calls that follow those of all pairs measured before it): its average is the
  float of \<open>mu\<close>, the sum of \<open>ts\<close> divided by \<open>c\<close>, and its deviation is the float of the
  square root of the sum of the squared deviations from \<open>mu\<close> divided by \<open>c\<close> (not by
  \<open>c - 1\<close>). For two trials with the elapsed times 0 and 1 the recorded deviation is
  \<open>1 / 2\<close>; the divisor \<open>c - 1\<close> would give the square root of \<open>1 / 2\<close>.
\<close>

theorem recorded_aggregates:
  assumes "0 < trials"
  shows "\<exists>res w'.
     run_experiments e (map_option (map PyInt) sizes) trials seed w = Inr (res, w') \<and>
     map fst res = algo_names \<and>
     (\<forall>name \<in> set algo_names. \<exists>rows.
        map_of res name = Some rows \<and>
        length rows = length (sizes_to_run name (requested sizes)) \<and>
        (\<forall>j < length rows.
           let c = nat trials;
               first = timings w + c * (pairs_before algo_names name (requested sizes) + j);
               ts = map (elapsed e) [first..<first + c];
               mu = sum_list ts / real c
           in rows ! j =
                (PyInt (sizes_to_run name (requested sizes) ! j),
                 to_float e mu,
                 sqrt_float e ((\<Sum>t\<leftarrow>ts. (t - mu)\<^sup>2) / real c))))"
proof -
  obtain res w' where r:
    "run_experiments e (map_option (map PyInt) sizes) trials seed w = Inr (res, w')"
    "map fst res = algo_names"
    "\<forall>k \<in> set algo_names.
       map_of res k =
         Some (measured_rows e (nat trials)
                 (timings w + nat trials * pairs_before algo_names k (requested sizes))
                 (sizes_to_run k (requested sizes)))"
    by (rule run_experiments_total [OF assms, of e sizes seed w])
  have "\<exists>rows.
        map_of res name = Some rows \<and>
        length rows = length (sizes_to_run name (requested sizes)) \<and>
        (\<forall>j < length rows.
           let c = nat trials;
               first = timings w + c * (pairs_before algo_names name (requested sizes) + j);
               ts = map (elapsed e) [first..<first + c];
               mu = sum_list ts / real c
           in rows ! j =
                (PyInt (sizes_to_run name (requested sizes) ! j),
                 to_float e mu,
                 sqrt_float e ((\<Sum>t\<leftarrow>ts. (t - mu)\<^sup>2) / real c)))"
    if name: "name \<in> set algo_names" for name
  proof -
    let ?ns = "sizes_to_run name (requested sizes)"
    let ?k = "timings w + nat trials * pairs_before algo_names name (requested sizes)"
    let ?rows = "measured_rows e (nat trials) ?k ?ns"
    have m: "map_of res name = Some ?rows" using bspec [OF r(3) name] .
    have "?rows ! j =
        (PyInt (?ns ! j),
         to_float e (sum_list (map (elapsed e) [?k + j * nat trials..<?k + j * nat trials + nat trials])
            / real (nat trials)),
         sqrt_float e
           ((\<Sum>t\<leftarrow>map (elapsed e) [?k + j * nat trials..<?k + j * nat trials + nat trials].
               (t - sum_list (map (elapsed e) [?k + j * nat trials..<?k + j * nat trials + nat trials])
                  / real (nat trials))\<^sup>2) / real (nat trials)))"
      if "j < length ?ns" for j
      using nth_measured_rows [OF that, of e "nat trials" ?k]
      by (simp add: aggregate_def Let_def)
    moreover have "?k + j * nat trials =
        timings w + nat trials * (pairs_before algo_names name (requested sizes) + j)" for j
      by (simp add: distrib_left)
    ultimately have "\<forall>j < length ?rows.
           let c = nat trials;
               first = timings w + c * (pairs_before algo_names name (requested sizes) + j);
               ts = map (elapsed e) [first..<first + c];
               mu = sum_list ts / real c
           in ?rows ! j =
                (PyInt (?ns ! j), to_float e mu, sqrt_float e ((\<Sum>t\<leftarrow>ts. (t - mu)\<^sup>2) / real c))"
      by (simp add: Let_def)
    with m show ?thesis by (intro exI [of _ ?rows] conjI) simp_all
  qed
  then have all: "\<forall>name \<in> set algo_names. \<exists>rows.
        map_of res name = Some rows \<and>
        length rows = length (sizes_to_run name (requested sizes)) \<and>
        (\<forall>j < length rows.
           let c = nat trials;
               first = timings w + c * (pairs_before algo_names name (requested sizes) + j);
               ts = map (elapsed e) [first..<first + c];
               mu = sum_list ts / real c
           in rows ! j =
                (PyInt (sizes_to_run name (requested sizes) ! j),
                 to_float e mu,
                 sqrt_float e ((\<Sum>t\<leftarrow>ts. (t - mu)\<^sup>2) / real c)))"
    by (intro ballI)
  show ?thesis
    by (rule exI [of _ res], rule exI [of _ w']) (intro conjI r(1) r(2) all)
qed

theorem recorded_aggregates_witness:
  "0 < (2::int) \<and>
   (\<exists>res w'.
      run_experiments
        \<lparr>rand = (\<lambda>s k lo hi. lo), elapsed = (\<lambda>k. real k), to_float = (\<lambda>x. x), sqrt_float = sqrt,
         int_of = (\<lambda>s. None), save = (\<lambda>d r. None)\<rparr>
        (Some [PyInt 3]) 2 0 \<lparr>draws = 0, timings = 0\<rparr> = Inr (res, w') \<and>
      map_of res ''Bubble'' = Some [(PyInt 3, 1 / 2, 1 / 2)] \<and>
      map_of res ''Insertion'' = Some [(PyInt 3, 5 / 2, 1 / 2)] \<and>
      map_of res ''Merge'' = Some [(PyInt 3, 9 / 2, 1 / 2)] \<and>
      map_of res ''Quick'' = Some [(PyInt 3, 13 / 2, 1 / 2)] \<and>
      map_of res ''Timsort'' = Some [(PyInt 3, 17 / 2, 1 / 2)])"
proof -
  let ?e = "\<lparr>rand = (\<lambda>s k lo hi. lo), elapsed = (\<lambda>k. real k), to_float = (\<lambda>x. x), sqrt_float = sqrt,
         int_of = (\<lambda>s. None), save = (\<lambda>d r. None)\<rparr>"
  let ?w = "\<lparr>draws = 0, timings = 0\<rparr>"
  have h: "0 < (2::int)" by simp
  have two: "[k..<k + 2] = [k, Suc k]" for k
    by (simp add: upt_rec [of k] upt_rec [of "Suc k"])
  from recorded_aggregates [OF h, of ?e "Some [3]" 0 ?w]
  obtain res w' where r: "run_experiments ?e (Some [PyInt 3]) 2 0 ?w = Inr (res, w')"
    and rows: "\<forall>name \<in> set algo_names. \<exists>rows.
        map_of res name = Some rows \<and>
        length rows = length (sizes_to_run name (requested (Some [3]))) \<and>
        (\<forall>j < length rows.
           let c = nat 2;
               first = timings ?w + c * (pairs_before algo_names name (requested (Some [3])) + j);
               ts = map (elapsed ?e) [first..<first + c];
               mu = sum_list ts / real c
           in rows ! j =
                (PyInt (sizes_to_run name (requested (Some [3])) ! j),
                 to_float ?e mu,
                 sqrt_float ?e ((\<Sum>t\<leftarrow>ts. (t - mu)\<^sup>2) / real c)))"
    by auto
  have b: "map_of res ''Bubble'' = Some [(PyInt 3, 1 / 2, 1 / 2)]"
    using bspec [OF rows, of "''Bubble''"]
    by (auto simp add: algo_names_def sizes_to_run_def requested_def Let_def two power2_eq_square
          sqrt_quarter field_simps dest!: single_row)
  have i: "map_of res ''Insertion'' = Some [(PyInt 3, 5 / 2, 1 / 2)]"
    using bspec [OF rows, of "''Insertion''"]
    by (auto simp add: algo_names_def sizes_to_run_def requested_def Let_def two power2_eq_square
          sqrt_quarter field_simps dest!: single_row)
  have m: "map_of res ''Merge'' = Some [(PyInt 3, 9 / 2, 1 / 2)]"
    using bspec [OF rows, of "''Merge''"]
    by (auto simp add: algo_names_def sizes_to_run_def requested_def Let_def two power2_eq_square
          sqrt_quarter field_simps dest!: single_row)
  have q: "map_of res ''Quick'' = Some [(PyInt 3, 13 / 2, 1 / 2)]"
    using bspec [OF rows, of "''Quick''"]
    by (auto simp add: algo_names_def sizes_to_run_def requested_def Let_def two power2_eq_square
          sqrt_quarter field_simps dest!: single_row)
  have t: "map_of res ''Timsort'' = Some [(PyInt 3, 17 / 2, 1 / 2)]"
    using bspec [OF rows, of "''Timsort''"]
    by (auto simp add: algo_names_def sizes_to_run_def requested_def Let_def two power2_eq_square
          sqrt_quarter field_simps dest!: single_row)
  show ?thesis
    by (intro conjI h exI [of _ res] exI [of _ w'] r b i m q t)
qed

text \<open>
  C9, as the specification states it: an invocation with power bounds out of range (such
  as \<^verbatim>\<open>--min-power\<close> greater than \<^verbatim>\<open>--max-power\<close>) is rejected with a usage error and a
  non-zero exit status. It fails for \<^verbatim>\<open>--min-power 5 --max-power 3\<close> (where \<^verbatim>\<open>int\<close> gives 5
  and 3 and the output files can be written): the arguments are accepted, the run
  completes with no measurement and the exit status is 0.
\<close>

theorem unchecked_bounds_run:
  "main \<lparr>rand = (\<lambda>s k lo hi. lo), elapsed = (\<lambda>k. real k), to_float = (\<lambda>x. x), sqrt_float = sqrt,
         int_of = map_of [(''5'', 5), (''3'', 3)], save = (\<lambda>d r. None)\<rparr>
     \<lparr>raw_min_power = Some ''5'', raw_max_power = Some ''3'', raw_trials = None,
      raw_seed = None, raw_outdir = None\<rparr>
     \<lparr>draws = 0, timings = 0\<rparr> =
   Completed [(''Bubble'', []), (''Insertion'', []), (''Merge'', []), (''Quick'', []),
              (''Timsort'', [])] \<and>
   exit_status
     (main \<lparr>rand = (\<lambda>s k lo hi. lo), elapsed = (\<lambda>k. real k), to_float = (\<lambda>x. x), sqrt_float = sqrt,
         int_of = map_of [(''5'', 5), (''3'', 3)], save = (\<lambda>d r. None)\<rparr>
        \<lparr>raw_min_power = Some ''5'', raw_max_power = Some ''3'', raw_trials = None,
         raw_seed = None, raw_outdir = None\<rparr>
        \<lparr>draws = 0, timings = 0\<rparr>) = 0"
  by (simp add: main_def parse_args_def int_option_def run_no_sizes no_measurements_def)

text \<open>
  C9, amended. An invocation in which \<^verbatim>\<open>int\<close> raises on the argument of \<^verbatim>\<open>--min-power\<close>,
  \<^verbatim>\<open>--max-power\<close>, \<^verbatim>\<open>--trials\<close> or \<^verbatim>\<open>--seed\<close> is rejected by the parser: usage error, exit
  status 2, and \<open>run_experiments\<close> is not run. The power bounds are not checked against
  each other: when all arguments are integers and \<^verbatim>\<open>--min-power\<close> is greater than
  \<^verbatim>\<open>--max-power\<close>, the experiments run with an empty list of sizes and record no
  measurement; the program then ends with exit status 0 when the output directory, the
  CSV file and the chart are written, and with the exception that writing them raises
  (exit status 1) otherwise.
\<close>

theorem main_argument_checks:
  "((\<exists>s. (raw_min_power raw = Some s \<or> raw_max_power raw = Some s
          \<or> raw_trials raw = Some s \<or> raw_seed raw = Some s) \<and> int_of e s = None) \<longrightarrow>
      main e raw w = UsageError 2 \<and> exit_status (main e raw w) = 2) \<and>
   (\<forall>a. parse_args e raw = Some a \<and> args_max_power a < args_min_power a \<longrightarrow>
      main e raw w =
        (case save e (args_outdir a) no_measurements of
           None \<Rightarrow> Completed no_measurements
         | Some err \<Rightarrow> Crashed err) \<and>
      exit_status (main e raw w) = (if save e (args_outdir a) no_measurements = None then 0 else 1))"
proof (intro conjI impI allI)
  assume "\<exists>s. (raw_min_power raw = Some s \<or> raw_max_power raw = Some s
          \<or> raw_trials raw = Some s \<or> raw_seed raw = Some s) \<and> int_of e s = None"
  then have p: "parse_args e raw = None" using parse_args_bad by blast
  show "main e raw w = UsageError 2" by (simp add: main_def p)
  show "exit_status (main e raw w) = 2" by (simp add: main_def p)
next
  fix a
  assume a: "parse_args e raw = Some a \<and> args_max_power a < args_min_power a"
  then show m: "main e raw w =
        (case save e (args_outdir a) no_measurements of
           None \<Rightarrow> Completed no_measurements
         | Some err \<Rightarrow> Crashed err)"
    using main_empty_range by blast
  show "exit_status (main e raw w) = (if save e (args_outdir a) no_measurements = None then 0 else 1)"
    by (simp add: m split: option.splits)
qed

theorem main_argument_checks_witness:
  "int_of \<lparr>rand = (\<lambda>s k lo hi. lo), elapsed = (\<lambda>k. real k), to_float = (\<lambda>x. x), sqrt_float = sqrt,
         int_of = map_of [(''5'', 5), (''3'', 3)],
         save = (\<lambda>d r. if d = Some ''/proc/x'' then Some OSError else None)\<rparr> ''1.5'' = None \<and>
   main \<lparr>rand = (\<lambda>s k lo hi. lo), elapsed = (\<lambda>k. real k), to_float = (\<lambda>x. x), sqrt_float = sqrt,
         int_of = map_of [(''5'', 5), (''3'', 3)],
         save = (\<lambda>d r. if d = Some ''/proc/x'' then Some OSError else None)\<rparr>
     \<lparr>raw_min_power = Some ''1.5'', raw_max_power = None, raw_trials = None,
      raw_seed = None, raw_outdir = None\<rparr>
     \<lparr>draws = 0, timings = 0\<rparr> = UsageError 2 \<and>
   parse_args \<lparr>rand = (\<lambda>s k lo hi. lo), elapsed = (\<lambda>k. real k), to_float = (\<lambda>x. x), sqrt_float = sqrt,
         int_of = map_of [(''5'', 5), (''3'', 3)],
         save = (\<lambda>d r. if d = Some ''/proc/x'' then Some OSError else None)\<rparr>
     \<lparr>raw_min_power = Some ''5'', raw_max_power = Some ''3'', raw_trials = None,
      raw_seed = None, raw_outdir = Some ''/proc/x''\<rparr> =
     Some \<lparr>args_min_power = 5, args_max_power = 3, args_trials = 3, args_seed = 0,
       args_outdir = Some ''/proc/x''\<rparr> \<and>
   main \<lparr>rand = (\<lambda>s k lo hi. lo), elapsed = (\<lambda>k. real k), to_float = (\<lambda>x. x), sqrt_float = sqrt,
         int_of = map_of [(''5'', 5), (''3'', 3)],
         save = (\<lambda>d r. if d = Some ''/proc/x'' then Some OSError else None)\<rparr>
     \<lparr>raw_min_power = Some ''5'', raw_max_power = Some ''3'', raw_trials = None,
      raw_seed = None, raw_outdir = Some ''/proc/x''\<rparr>
     \<lparr>draws = 0, timings = 0\<rparr> = Crashed OSError \<and>
   exit_status
     (main \<lparr>rand = (\<lambda>s k lo hi. lo), elapsed = (\<lambda>k. real k), to_float = (\<lambda>x. x), sqrt_float = sqrt,
         int_of = map_of [(''5'', 5), (''3'', 3)],
         save = (\<lambda>d r. if d = Some ''/proc/x'' then Some OSError else None)\<rparr>
        \<lparr>raw_min_power = Some ''5'', raw_max_power = Some ''3'', raw_trials = None,
         raw_seed = None, raw_outdir = Some ''/proc/x''\<rparr>
        \<lparr>draws = 0, timings = 0\<rparr>) = 1"
proof -
  let ?e = "\<lparr>rand = (\<lambda>s k lo hi. lo), elapsed = (\<lambda>k. real k), to_float = (\<lambda>x. x), sqrt_float = sqrt,
         int_of = map_of [(''5'', 5), (''3'', 3)],
         save = (\<lambda>d r. if d = Some ''/proc/x'' then Some OSError else None)\<rparr>"
  let ?w = "\<lparr>draws = 0, timings = 0\<rparr>"
  let ?bad = "\<lparr>raw_min_power = Some ''1.5'', raw_max_power = None, raw_trials = None,
      raw_seed = None, raw_outdir = None\<rparr>"
  let ?rev = "\<lparr>raw_min_power = Some ''5'', raw_max_power = Some ''3'', raw_trials = None,
      raw_seed = None, raw_outdir = Some ''/proc/x''\<rparr>"
  let ?a = "\<lparr>args_min_power = 5, args_max_power = 3, args_trials = 3, args_seed = 0,
       args_outdir = Some ''/proc/x''\<rparr>"
  have n: "int_of ?e ''1.5'' = None" by simp
  have p: "parse_args ?e ?rev = Some ?a"
    by (simp add: parse_args_def int_option_def)
  have bad: "main ?e ?bad ?w = UsageError 2"
    using main_argument_checks [of ?bad ?e ?w] by simp
  have rev: "main ?e ?rev ?w = Crashed OSError \<and> exit_status (main ?e ?rev ?w) = 1"
    using main_argument_checks [of ?rev ?e ?w] p by simp
  show ?thesis
    using n p bad rev by (intro conjI) simp_all
qed

end
